theory Spec2Isabelle
  imports Main "HOL-Library.Word"
begin

section \<open>The retry output of \<open>lib/output/retry.go\<close>\<close>

text \<open>
  The file defines the configuration of the retry output (\<open>RetryConfig\<close>,
  \<open>NewRetryConfig\<close>), its constructor (\<open>NewRetry\<close>), the lifecycle methods
  (\<open>Consume\<close>, \<open>CloseAsync\<close>, \<open>WaitForClose\<close>) and the goroutines started by
  \<open>Consume\<close>: the coordinator \<open>loop\<close> and one worker per transaction.

  Packages \<open>retries\<close>, \<open>types\<close>, \<open>response\<close>, \<open>backoff\<close> and the output
  constructor \<open>New\<close> are imported by the file and are not part of it. What the file
  needs of them is taken as a parameter of the function that uses it.
\<close>

subsection \<open>Configuration\<close>

text \<open>
  \<open>retries.Config\<close> as \<open>NewRetryConfig\<close> uses it: a retry count and three interval
  strings under \<open>Backoff\<close>.
\<close>

record retries_Backoff =
  InitialInterval :: string
  MaxInterval :: string
  MaxElapsedTime :: string

record retries_Config =
  MaxRetries :: nat
  Backoff :: retries_Backoff

text \<open>
  The output \<open>Config\<close> holds the declared type name and, for the retry type, a
  \<open>RetryConfig\<close>; a \<open>RetryConfig\<close> holds a pointer to the child's \<open>Config\<close>
  (\<open>None\<close> is the nil pointer) and the embedded \<open>retries.Config\<close>.
\<close>

datatype Config = MkConfig (Type: string) (Retry: RetryConfig)
  and RetryConfig = MkRetryConfig (Output: "Config option") (Config: retries_Config)

text \<open>
  \<open>NewRetryConfig\<close>, lines 92 to 102. The argument stands for the value of
  \<open>retries.NewConfig()\<close>, which the function calls twice: once for the local
  \<open>rConf\<close>, once for the struct it returns.
\<close>

definition NewRetryConfig :: "retries_Config \<Rightarrow> RetryConfig" where
  "NewRetryConfig retries_NewConfig =
     (let rConf = retries_NewConfig;
          rConf = rConf\<lparr>MaxRetries := 0\<rparr>;
          rConf = rConf\<lparr>Backoff := (Backoff rConf)\<lparr>InitialInterval := ''100ms''\<rparr>\<rparr>;
          rConf = rConf\<lparr>Backoff := (Backoff rConf)\<lparr>MaxInterval := ''1s''\<rparr>\<rparr>;
          rConf = rConf\<lparr>Backoff := (Backoff rConf)\<lparr>MaxElapsedTime := ''0s''\<rparr>\<rparr>
      in MkRetryConfig None retries_NewConfig)"

subsection \<open>Errors, panics and channels\<close>

text \<open>
  An \<open>error\<close> is one of the two sentinel values of package \<open>types\<close> that the file
  returns, or an error made from a message (\<open>errors.New\<close>, \<open>fmt.Errorf\<close>).
\<close>

datatype error = ErrAlreadyStarted | ErrTimeout | ErrorString string

text \<open>The two run-time panics a channel operation of the file can raise.\<close>

datatype panic = close_of_closed_channel | send_on_closed_channel

text \<open>
  A step of a goroutine either cannot be taken in the present state, or panics, or
  yields a result.
\<close>

datatype 'a outcome = Disabled | Panicked panic | Ok 'a

text \<open>
  The channels the output owns carry no buffered data; what matters of them is whether
  they have been closed. Closing a closed channel panics.
\<close>

datatype chan = Open | Closed

fun close :: "chan \<Rightarrow> panic + chan" where
  "close Open = Inr Closed"
| "close Closed = Inl close_of_closed_channel"

text \<open>
  \<open>select\<close> over cases of which some are ready: none ready blocks (\<open>None\<close>);
  otherwise one ready case is chosen, by an arbitrary \<open>pick\<close> among the ready ones.
\<close>

definition select :: "bool list \<Rightarrow> nat \<Rightarrow> nat option" where
  "select ready pick =
     (let is = filter (\<lambda>i. ready ! i) [0 ..< length ready]
      in if is = [] then None else Some (is ! (pick mod length is)))"

subsection \<open>The Retry output and its constructor\<close>

text \<open>
  The struct \<open>Retry\<close>, lines 139 to 154. \<open>'w\<close> is the state of the wrapped output,
  \<open>'b\<close> the state of a fresh backoff instance as \<open>backoffCtor\<close> returns it.
  \<open>transactionsIn\<close> is the upstream channel (its identity; \<open>None\<close> is nil). The
  metrics and the logger are observed through the traces of the goroutines below.
\<close>

record ('w, 'b) Retry =
  running :: "32 word"
  conf :: RetryConfig
  wrapped :: 'w
  backoffCtor :: 'b
  transactionsIn :: "nat option"
  transactionsOut :: chan
  closeChan :: chan
  closedChan :: chan

text \<open>
  \<open>NewRetry\<close>, lines 157 to 190. \<open>New\<close> is the output constructor applied to the
  child's configuration, \<open>GetCtor\<close> the method of the embedded \<open>retries.Config\<close>,
  \<open>Error\<close> the text of an error as \<open>%v\<close> prints it.
\<close>

definition NewRetry ::
  "(Config \<Rightarrow> error + 'w) \<Rightarrow> (retries_Config \<Rightarrow> error + 'b) \<Rightarrow> (error \<Rightarrow> string)
   \<Rightarrow> Config \<Rightarrow> error + ('w, 'b) Retry" where
  "NewRetry New GetCtor Error c =
     (case Output (Retry c) of
        None \<Rightarrow> Inl (ErrorString ''cannot create retry output without a child'')
      | Some child \<Rightarrow>
          (case New child of
             Inl err \<Rightarrow>
               Inl (ErrorString (''failed to create output '' @ [CHR 0x27] @ Type child
                                 @ [CHR 0x27] @ '': '' @ Error err))
           | Inr w \<Rightarrow>
               (case GetCtor (Config (Retry c)) of
                  Inl err \<Rightarrow> Inl err
                | Inr boffCtor \<Rightarrow>
                    Inr \<lparr>running = 1, conf = Retry c, wrapped = w, backoffCtor = boffCtor,
                         transactionsIn = None, transactionsOut = Open,
                         closeChan = Open, closedChan = Open\<rparr>)))"

subsection \<open>Consume, CloseAsync, WaitForClose\<close>



text \<open>
  \<open>CloseAsync\<close>, lines 349 to 353: an atomic compare-and-swap of \<open>running\<close> from 1
  to 0 and, for the caller that swapped, \<open>close(r.closeChan)\<close>.
\<close>

definition CompareAndSwapInt32 :: "32 word \<Rightarrow> 32 word \<Rightarrow> 32 word \<Rightarrow> bool \<times> 32 word" where
  "CompareAndSwapInt32 v old new = (if v = old then (True, new) else (False, v))"

definition CloseAsync :: "('w, 'b) Retry \<Rightarrow> panic + ('w, 'b) Retry" where
  "CloseAsync r =
     (case CompareAndSwapInt32 (running r) 1 0 of
        (True, v) \<Rightarrow>
          (case close (closeChan r) of
             Inl p \<Rightarrow> Inl p
           | Inr c \<Rightarrow> Inr (r\<lparr>running := v, closeChan := c\<rparr>))
      | (False, v) \<Rightarrow> Inr r)"

text \<open>
  Concurrent callers interleave between the swap and the close. A state of the callers
  is the output together with the number of calls that have swapped and not yet closed;
  \<open>cas\<close> is the first half of some call, \<open>close_chan\<close> the second half of a call
  that swapped. Each step reports what it did.
\<close>

datatype close_step = cas | close_chan

datatype close_event = swapped | not_swapped | closed

fun CloseAsync_step ::
  "close_step \<Rightarrow> ('w, 'b) Retry \<times> nat \<Rightarrow> (close_event \<times> ('w, 'b) Retry \<times> nat) outcome" where
  "CloseAsync_step cas (r, n) =
     (case CompareAndSwapInt32 (running r) 1 0 of
        (True, v) \<Rightarrow> Ok (swapped, r\<lparr>running := v\<rparr>, Suc n)
      | (False, v) \<Rightarrow> Ok (not_swapped, r, n))"
| "CloseAsync_step close_chan (r, 0) = Disabled"
| "CloseAsync_step close_chan (r, Suc n) =
     (case close (closeChan r) of
        Inl p \<Rightarrow> Panicked p
      | Inr c \<Rightarrow> Ok (closed, r\<lparr>closeChan := c\<rparr>, n))"

fun CloseAsync_run ::
  "close_step list \<Rightarrow> ('w, 'b) Retry \<times> nat \<Rightarrow> (close_event list \<times> ('w, 'b) Retry \<times> nat) outcome" where
  "CloseAsync_run [] s = Ok ([], s)"
| "CloseAsync_run (a # as) s =
     (case CloseAsync_step a s of
        Disabled \<Rightarrow> Disabled
      | Panicked p \<Rightarrow> Panicked p
      | Ok (e, s') \<Rightarrow>
          (case CloseAsync_run as s' of
             Disabled \<Rightarrow> Disabled
           | Panicked p \<Rightarrow> Panicked p
           | Ok (es, s'') \<Rightarrow> Ok (e # es, s'')))"

text \<open>
  The states the callers of \<open>CloseAsync\<close> can be in: nobody has swapped; one call
  has swapped and not yet closed; the channel is closed.
\<close>

definition lifecycle_inv :: "('w, 'b) Retry \<times> nat \<Rightarrow> bool" where
  "lifecycle_inv s =
     (case s of (r, n) \<Rightarrow>
        (running r = 1 \<and> n = 0 \<and> closeChan r = Open)
        \<or> (running r = 0 \<and> n = 1 \<and> closeChan r = Open)
        \<or> (running r = 0 \<and> n = 0 \<and> closeChan r = Closed))"

text \<open>
  \<open>WaitForClose\<close>, lines 356 to 363: a \<open>select\<close> over \<open>r.closedChan\<close> and the
  timer of \<open>time.After(timeout)\<close>. \<open>expired\<close> tells whether the timer has fired when
  the select is decided. The result is \<open>None\<close> while the call blocks,
  \<open>Some None\<close> for nil and \<open>Some (Some ErrTimeout)\<close> for the timeout error.
\<close>

definition WaitForClose :: "('w, 'b) Retry \<Rightarrow> bool \<Rightarrow> nat \<Rightarrow> error option option" where
  "WaitForClose r expired pick =
     (case select [closedChan r = Closed, expired] pick of
        None \<Rightarrow> None
      | Some i \<Rightarrow> if i = 0 then Some None else Some (Some ErrTimeout))"

subsection \<open>The goroutines of \<open>loop\<close>\<close>

text \<open>
  \<open>loop\<close> (lines 194 to 327) is the coordinator goroutine; it starts one worker
  goroutine per transaction (lines 253 to 323). They share \<open>r.running\<close>,
  \<open>r.closeChan\<close>, \<open>r.transactionsOut\<close>, the counter \<open>errLooped\<close>, the wait group
  \<open>wg\<close> and the channel \<open>errInterruptChan\<close>. Each goroutine is a sequential program;
  a step of the model is one atomic operation on \<open>running\<close>, \<open>errLooped\<close> or \<open>wg\<close>,
  or one channel operation, of one goroutine, together with the local statements that
  follow it, and a run is an interleaving of such steps. Calls of the metrics and of the
  logger are recorded with the step they stand in. The upstream source, the wrapped
  output and the timers are the environment: a step names what they did (which value
  arrived, which case of a select fired).

  A payload is the list of parts of a message; \<open>Len\<close> is its length.
\<close>

type_synonym payload = "string list"

text \<open>The responses the worker makes itself; \<open>None\<close> of \<open>resOut option\<close> is the nil
  interface value a \<open>types.Response\<close> variable starts with.\<close>

datatype resOut = NewAck | NewNoack

text \<open>\<open>backoff.Stop\<close> is the duration -1.\<close>

definition Stop :: int where
  "Stop = - 1"

text \<open>
  The operations a goroutine performs that another goroutine or the environment can see.
  Each goroutine records its own in a trace, in program order.
\<close>

datatype event =
    load_running "32 word"
  | load_errLooped int
  | errLooped_add int
  | gauge string int
  | metric string int
  | log_error
  | pulled payload
  | delivered payload
  | spawned payload
  | wg_Done
  | interrupt_sent
  | responded "resOut option"
  | close_transactionsOut
  | wrapped_CloseAsync
  | wrapped_WaitForClose int bool
  | close_closedChan

paragraph \<open>The worker\<close>

text \<open>
  Where a worker stands, named by the source line it is about to execute. At line 281
  it holds the value of \<open>res.Error()\<close> of the response it received; at line 299 the
  interval it waits for.
\<close>

datatype wloc =
    w273_for
  | w275_select
  | w281_if "error option"
  | w299_select int
  | w305_select
  | w318_select
  | w259_defer
  | w261_defer
  | w265_select
  | w_returned

text \<open>The locals of the worker: \<open>ts.Payload\<close>, \<open>inErrLoop\<close>, \<open>backOff\<close> (nil or an
  instance), \<open>resOut\<close>; and its trace.\<close>

record 'b worker =
  wloc :: wloc
  ts_Payload :: payload
  inErrLoop :: bool
  backOff :: "'b option"
  resOut :: "resOut option"
  wtrace :: "event list"

definition new_worker :: "payload \<Rightarrow> 'b worker" where
  "new_worker p =
     \<lparr>wloc = w273_for, ts_Payload = p, inErrLoop = False, backOff = None, resOut = None,
      wtrace = []\<rparr>"

text \<open>
  Lines 281 to 315: what the worker does with a response. \<open>NextBackOff\<close> is the method
  of the backoff instance: from the instance's state, the interval (or \<open>Stop\<close>) and the
  state after the call.
\<close>

definition handle_response ::
  "('b \<Rightarrow> int \<times> 'b) \<Rightarrow> 'b \<Rightarrow> error option \<Rightarrow> 'b worker \<Rightarrow> event list \<times> 'b worker" where
  "handle_response NextBackOff ctor res w =
     (case res of
        Some err \<Rightarrow>
          (let evs = (if \<not> inErrLoop w then [errLooped_add 1] else [])
                     @ [metric ''retry.send.error'' 1, log_error];
               b = (case backOff w of None \<Rightarrow> ctor | Some b \<Rightarrow> b);
               (nextBackoff, b') = NextBackOff b
           in if nextBackoff = Stop
              then (evs @ [metric ''retry.end_of_retries'' 1],
                    w\<lparr>inErrLoop := True, backOff := Some b', resOut := Some NewNoack,
                      wloc := w318_select\<rparr>)
              else (evs, w\<lparr>inErrLoop := True, backOff := Some b',
                            wloc := w299_select nextBackoff\<rparr>))
      | None \<Rightarrow>
          ([metric ''retry.send.success'' 1,
            metric ''retry.parts.send.success'' (int (length (ts_Payload w)))],
           w\<lparr>resOut := Some NewAck, wloc := w318_select\<rparr>))"

text \<open>The selects of the worker that have a case \<open><-r.closeChan\<close>.\<close>

fun cancellable :: "wloc \<Rightarrow> bool" where
  "cancellable w275_select = True"
| "cancellable (w299_select d) = True"
| "cancellable w305_select = True"
| "cancellable w318_select = True"
| "cancellable l = False"

text \<open>
  The steps of a worker: the test of the loop condition; the arrival of a response; its
  handling; the end of the backoff wait; the resubmission being taken by the wrapped
  output; the response being taken by the source; the closed \<open>closeChan\<close> being chosen
  in a select; and the three operations of the deferred function, with the two cases of
  its non-blocking send.
\<close>

datatype wact =
    w_test_running
  | w_recv "error option"
  | w_handle
  | w_timer
  | w_send
  | w_respond
  | w_cancel
  | w_Done
  | w_decrement
  | w_interrupt
  | w_default

text \<open>
  One step of a worker: the events of the step and the worker after it. \<open>gate\<close> tells
  whether the coordinator stands in the select of line 224 and so can receive from
  \<open>errInterruptChan\<close>.
\<close>

definition wcore ::
  "('b \<Rightarrow> int \<times> 'b) \<Rightarrow> ('w, 'b) Retry \<Rightarrow> bool \<Rightarrow> wact \<Rightarrow> 'b worker
   \<Rightarrow> (event list \<times> 'b worker) outcome" where
  "wcore NextBackOff r gate a w =
     (case a of
        w_test_running \<Rightarrow>
          (case wloc w of
             w273_for \<Rightarrow>
               Ok ([], w\<lparr>wloc := (if running r = 1 then w275_select else w318_select)\<rparr>)
           | _ \<Rightarrow> Disabled)
      | w_recv res \<Rightarrow>
          (case wloc w of
             w275_select \<Rightarrow> Ok ([], w\<lparr>wloc := w281_if res\<rparr>)
           | _ \<Rightarrow> Disabled)
      | w_handle \<Rightarrow>
          (case wloc w of
             w281_if res \<Rightarrow> Ok (handle_response NextBackOff (backoffCtor r) res w)
           | _ \<Rightarrow> Disabled)
      | w_timer \<Rightarrow>
          (case wloc w of
             w299_select d \<Rightarrow> Ok ([], w\<lparr>wloc := w305_select\<rparr>)
           | _ \<Rightarrow> Disabled)
      | w_send \<Rightarrow>
          (case wloc w of
             w305_select \<Rightarrow>
               (if transactionsOut r = Closed then Panicked send_on_closed_channel
                else Ok ([delivered (ts_Payload w)], w\<lparr>wloc := w273_for\<rparr>))
           | _ \<Rightarrow> Disabled)
      | w_respond \<Rightarrow>
          (case wloc w of
             w318_select \<Rightarrow> Ok ([responded (resOut w)], w\<lparr>wloc := w259_defer\<rparr>)
           | _ \<Rightarrow> Disabled)
      | w_cancel \<Rightarrow>
          (if closeChan r = Closed \<and> cancellable (wloc w)
           then Ok ([], w\<lparr>wloc := w259_defer\<rparr>)
           else Disabled)
      | w_Done \<Rightarrow>
          (case wloc w of
             w259_defer \<Rightarrow>
               Ok ([wg_Done], w\<lparr>wloc := (if inErrLoop w then w261_defer else w_returned)\<rparr>)
           | _ \<Rightarrow> Disabled)
      | w_decrement \<Rightarrow>
          (case wloc w of
             w261_defer \<Rightarrow> Ok ([errLooped_add (- 1)], w\<lparr>wloc := w265_select\<rparr>)
           | _ \<Rightarrow> Disabled)
      | w_interrupt \<Rightarrow>
          (case wloc w of
             w265_select \<Rightarrow>
               (if gate then Ok ([interrupt_sent], w\<lparr>wloc := w_returned\<rparr>) else Disabled)
           | _ \<Rightarrow> Disabled)
      | w_default \<Rightarrow>
          (case wloc w of
             w265_select \<Rightarrow> Ok ([], w\<lparr>wloc := w_returned\<rparr>)
           | _ \<Rightarrow> Disabled))"

definition wstep ::
  "('b \<Rightarrow> int \<times> 'b) \<Rightarrow> ('w, 'b) Retry \<Rightarrow> bool \<Rightarrow> wact \<Rightarrow> 'b worker
   \<Rightarrow> (event list \<times> 'b worker) outcome" where
  "wstep NextBackOff r gate a w =
     (case wcore NextBackOff r gate a w of
        Ok (evs, w') \<Rightarrow> Ok (evs, w'\<lparr>wtrace := wtrace w @ evs\<rparr>)
      | Panicked p \<Rightarrow> Panicked p
      | Disabled \<Rightarrow> Disabled)"

paragraph \<open>The coordinator\<close>

text \<open>Where the coordinator stands; at lines 246 and 252 it holds the payload of the
  transaction it received.\<close>

datatype cloc =
    c214
  | c220_for
  | c223_for
  | c224_select
  | c235_select
  | c246_select payload
  | c252_go payload
  | c326_Wait
  | c206_defer
  | c207_defer
  | c208_defer
  | c211_defer
  | c_returned

text \<open>The selects of the coordinator that have a case \<open><-r.closeChan\<close>.\<close>

fun ccancellable :: "cloc \<Rightarrow> bool" where
  "ccancellable c224_select = True"
| "ccancellable c235_select = True"
| "ccancellable (c246_select p) = True"
| "ccancellable l = False"

text \<open>
  The steps of the coordinator. \<open>c_recv None\<close> is the upstream channel found closed;
  \<open>c_WaitForClose ok\<close> is one call of the wrapped output's \<open>WaitForClose\<close>, which
  returned nil when \<open>ok\<close>. The interrupt of line 225 is received in the worker's step
  \<open>w_interrupt\<close>.
\<close>

datatype cact =
    c_Incr
  | c_test_running
  | c_test_errLooped
  | c_timer
  | c_recv "payload option"
  | c_send
  | c_go
  | c_cancel
  | c_Wait
  | c_close_out
  | c_CloseAsync
  | c_WaitForClose bool
  | c_close_closed

definition Second :: int where
  "Second = 1000000000"

definition cstep ::
  "('w, 'b) Retry \<Rightarrow> int \<Rightarrow> int \<Rightarrow> cact \<Rightarrow> cloc \<Rightarrow> (event list \<times> cloc) outcome" where
  "cstep r errLooped wg a l =
     (case a of
        c_Incr \<Rightarrow>
          (case l of c214 \<Rightarrow> Ok ([gauge ''retry.running'' 1], c220_for) | _ \<Rightarrow> Disabled)
      | c_test_running \<Rightarrow>
          (case l of
             c220_for \<Rightarrow>
               Ok ([load_running (running r)], if running r = 1 then c223_for else c326_Wait)
           | _ \<Rightarrow> Disabled)
      | c_test_errLooped \<Rightarrow>
          (case l of
             c223_for \<Rightarrow>
               Ok ([load_errLooped errLooped], if errLooped > 0 then c224_select else c235_select)
           | _ \<Rightarrow> Disabled)
      | c_timer \<Rightarrow>
          (case l of c224_select \<Rightarrow> Ok ([], c223_for) | _ \<Rightarrow> Disabled)
      | c_recv tran \<Rightarrow>
          (case l of
             c235_select \<Rightarrow>
               (case tran of
                  None \<Rightarrow> Ok ([], c206_defer)
                | Some p \<Rightarrow> Ok ([pulled p, metric ''retry.count'' 1], c246_select p))
           | _ \<Rightarrow> Disabled)
      | c_send \<Rightarrow>
          (case l of
             c246_select p \<Rightarrow>
               (if transactionsOut r = Closed then Panicked send_on_closed_channel
                else Ok ([delivered p], c252_go p))
           | _ \<Rightarrow> Disabled)
      | c_go \<Rightarrow>
          (case l of c252_go p \<Rightarrow> Ok ([spawned p], c220_for) | _ \<Rightarrow> Disabled)
      | c_cancel \<Rightarrow>
          (if closeChan r = Closed \<and> ccancellable l then Ok ([], c206_defer) else Disabled)
      | c_Wait \<Rightarrow>
          (case l of
             c326_Wait \<Rightarrow> (if wg = 0 then Ok ([], c206_defer) else Disabled)
           | _ \<Rightarrow> Disabled)
      | c_close_out \<Rightarrow>
          (case l of
             c206_defer \<Rightarrow>
               (case close (transactionsOut r) of
                  Inl p \<Rightarrow> Panicked p
                | Inr c \<Rightarrow> Ok ([close_transactionsOut], c207_defer))
           | _ \<Rightarrow> Disabled)
      | c_CloseAsync \<Rightarrow>
          (case l of c207_defer \<Rightarrow> Ok ([wrapped_CloseAsync], c208_defer) | _ \<Rightarrow> Disabled)
      | c_WaitForClose ok \<Rightarrow>
          (case l of
             c208_defer \<Rightarrow>
               Ok ([wrapped_WaitForClose Second ok], if ok then c211_defer else c208_defer)
           | _ \<Rightarrow> Disabled)
      | c_close_closed \<Rightarrow>
          (case l of
             c211_defer \<Rightarrow>
               (case close (closedChan r) of
                  Inl p \<Rightarrow> Panicked p
                | Inr c \<Rightarrow> Ok ([gauge ''retry.running'' (- 1), close_closedChan], c_returned))
           | _ \<Rightarrow> Disabled))"

paragraph \<open>The whole output\<close>

text \<open>
  The state of a started output: the struct, the locals of \<open>loop\<close> that the workers
  share (\<open>errLooped\<close>, the counter of \<open>wg\<close>), the number of \<open>CloseAsync\<close> calls
  between their swap and their close, the coordinator and the workers.
\<close>

record ('w, 'b) system =
  retry :: "('w, 'b) Retry"
  errLooped :: int
  wg :: int
  closing :: nat
  cloc :: cloc
  ctrace :: "event list"
  workers :: "'b worker list"

definition init :: "('w, 'b) Retry \<Rightarrow> ('w, 'b) system" where
  "init r =
     \<lparr>retry = r, errLooped = 0, wg = 0, closing = 0, cloc = c214, ctrace = [], workers = []\<rparr>"

text \<open>What an operation does to the shared state.\<close>

fun effect :: "event \<Rightarrow> ('w, 'b) system \<Rightarrow> ('w, 'b) system" where
  "effect (errLooped_add k) s = s\<lparr>errLooped := errLooped s + k\<rparr>"
| "effect wg_Done s = s\<lparr>wg := wg s - 1\<rparr>"
| "effect (spawned p) s = s\<lparr>wg := wg s + 1, workers := workers s @ [new_worker p]\<rparr>"
| "effect interrupt_sent s = s\<lparr>cloc := c223_for\<rparr>"
| "effect close_transactionsOut s = s\<lparr>retry := (retry s)\<lparr>transactionsOut := Closed\<rparr>\<rparr>"
| "effect close_closedChan s = s\<lparr>retry := (retry s)\<lparr>closedChan := Closed\<rparr>\<rparr>"
| "effect e s = s"

definition effects :: "event list \<Rightarrow> ('w, 'b) system \<Rightarrow> ('w, 'b) system" where
  "effects evs s = fold effect evs s"

text \<open>A step of the output: of the coordinator, of the worker with a given index, or
  of a caller of \<open>CloseAsync\<close>.\<close>

datatype action = Coordinator cact | Worker nat wact | Closer close_step

fun exec :: "('b \<Rightarrow> int \<times> 'b) \<Rightarrow> action \<Rightarrow> ('w, 'b) system \<Rightarrow> ('w, 'b) system outcome" where
  "exec NextBackOff (Coordinator a) s =
     (case cstep (retry s) (errLooped s) (wg s) a (cloc s) of
        Ok (evs, l) \<Rightarrow> Ok (effects evs (s\<lparr>cloc := l, ctrace := ctrace s @ evs\<rparr>))
      | Panicked p \<Rightarrow> Panicked p
      | Disabled \<Rightarrow> Disabled)"
| "exec NextBackOff (Worker i a) s =
     (if i < length (workers s)
      then (case wstep NextBackOff (retry s) (cloc s = c224_select) a (workers s ! i) of
              Ok (evs, w) \<Rightarrow> Ok (effects evs (s\<lparr>workers := (workers s)[i := w]\<rparr>))
            | Panicked p \<Rightarrow> Panicked p
            | Disabled \<Rightarrow> Disabled)
      else Disabled)"
| "exec NextBackOff (Closer a) s =
     (case CloseAsync_step a (retry s, closing s) of
        Ok (e, r, n) \<Rightarrow> Ok (s\<lparr>retry := r, closing := n\<rparr>)
      | Panicked p \<Rightarrow> Panicked p
      | Disabled \<Rightarrow> Disabled)"

fun run :: "('b \<Rightarrow> int \<times> 'b) \<Rightarrow> action list \<Rightarrow> ('w, 'b) system \<Rightarrow> ('w, 'b) system outcome" where
  "run NextBackOff [] s = Ok s"
| "run NextBackOff (a # as) s =
     (case exec NextBackOff a s of
        Ok s' \<Rightarrow> run NextBackOff as s'
      | Panicked p \<Rightarrow> Panicked p
      | Disabled \<Rightarrow> Disabled)"

text \<open>What is seen of the state a run ends in, if it ends in one.\<close>

definition observe :: "('s \<Rightarrow> 'a) \<Rightarrow> 's outcome \<Rightarrow> 'a option" where
  "observe f out = (case out of Ok s \<Rightarrow> Some (f s) | _ \<Rightarrow> None)"

subsection \<open>Traces, invariants and schedules\<close>

text \<open>
  \<open>adds\<close> lists what a trace added to \<open>errLooped\<close>. A worker has \<open>decremented\<close>
  once it is past line 261. \<open>counter_inv\<close> ties the additions of a worker to its
  \<open>inErrLoop\<close> and its place in the code; \<open>counter_sum\<close> ties \<open>errLooped\<close> to the
  workers. \<open>current\<close> is the backoff instance line 293 calls.
\<close>

fun decremented :: "wloc \<Rightarrow> bool" where
  "decremented w265_select = True"
| "decremented w_returned = True"
| "decremented l = False"

fun adds :: "event list \<Rightarrow> int list" where
  "adds [] = []"
| "adds (errLooped_add k # es) = k # adds es"
| "adds (e # es) = adds es"

fun in_loop :: "wloc \<Rightarrow> bool" where
  "in_loop w273_for = True"
| "in_loop w275_select = True"
| "in_loop (w281_if res) = True"
| "in_loop l = False"

fun on_error_path :: "wloc \<Rightarrow> bool" where
  "on_error_path (w299_select d) = True"
| "on_error_path w305_select = True"
| "on_error_path w261_defer = True"
| "on_error_path w265_select = True"
| "on_error_path l = False"

definition counter_inv :: "'b worker \<Rightarrow> bool" where
  "counter_inv w =
     (adds (wtrace w)
        = (if inErrLoop w then (if decremented (wloc w) then [1, - 1] else [1]) else [])
      \<and> (inErrLoop w \<longleftrightarrow> log_error \<in> set (wtrace w))
      \<and> (inErrLoop w \<longrightarrow>
           (\<exists>rest. wtrace w
              = errLooped_add 1 # metric ''retry.send.error'' 1 # log_error # rest))
      \<and> (\<not> inErrLoop w \<and> in_loop (wloc w) \<longrightarrow> wtrace w = [])
      \<and> (on_error_path (wloc w) \<longrightarrow> inErrLoop w))"

definition current :: "'b \<Rightarrow> 'b worker \<Rightarrow> 'b" where
  "current ctor w = (case backOff w of None \<Rightarrow> ctor | Some b \<Rightarrow> b)"

fun spawns :: "event list \<Rightarrow> 'b worker list" where
  "spawns [] = []"
| "spawns (spawned p # es) = new_worker p # spawns es"
| "spawns (e # es) = spawns es"

definition counter_sum :: "('w, 'b) system \<Rightarrow> bool" where
  "counter_sum s =
     (errLooped s = sum_list (map (\<lambda>w. sum_list (adds (wtrace w))) (workers s))
      \<and> list_all counter_inv (workers s))"

text \<open>
  \<open>responses\<close> lists what a trace wrote to the transaction's response channel. A
  worker is \<open>past_select\<close> once it has left the select of line 318. \<open>response_inv\<close>
  holds of a worker in every run; \<open>answered\<close> holds of it as long as \<open>running\<close> is 1.
\<close>

fun responses :: "event list \<Rightarrow> resOut option list" where
  "responses [] = []"
| "responses (responded x # es) = x # responses es"
| "responses (e # es) = responses es"

fun past_select :: "wloc \<Rightarrow> bool" where
  "past_select w259_defer = True"
| "past_select w261_defer = True"
| "past_select w265_select = True"
| "past_select w_returned = True"
| "past_select l = False"

definition response_inv :: "'b worker \<Rightarrow> bool" where
  "response_inv w =
     (length (responses (wtrace w)) \<le> 1
      \<and> (\<not> past_select (wloc w) \<longrightarrow> responses (wtrace w) = [])
      \<and> (resOut w = Some NewAck \<longrightarrow> metric ''retry.send.success'' 1 \<in> set (wtrace w))
      \<and> (resOut w = Some NewNoack \<longrightarrow> metric ''retry.end_of_retries'' 1 \<in> set (wtrace w)))"

definition answered :: "'b worker \<Rightarrow> bool" where
  "answered w =
     ((past_select (wloc w) \<longrightarrow> responses (wtrace w) = [resOut w])
      \<and> (wloc w = w318_select \<or> past_select (wloc w) \<longrightarrow> resOut w \<noteq> None))"

definition response_sys :: "('w, 'b) system \<Rightarrow> bool" where
  "response_sys s =
     (lifecycle_inv (retry s, closing s)
      \<and> list_all response_inv (workers s)
      \<and> (running (retry s) = 1 \<longrightarrow> list_all answered (workers s)))"

text \<open>
  \<open>resubmissions\<close> counts the transactions a trace sent to the wrapped output.
  \<open>bstate i\<close> is the state of a backoff instance after \<open>i\<close> calls of
  \<open>NextBackOff\<close>, and \<open>answer i\<close> what call number \<open>i + 1\<close> returns. A worker is
  \<open>waiting\<close> between a failure and its resubmission. \<open>backoff_inv\<close> ties the calls,
  the failures handled and the resubmissions of a worker together.
\<close>

fun resubmissions :: "event list \<Rightarrow> nat" where
  "resubmissions [] = 0"
| "resubmissions (delivered p # es) = Suc (resubmissions es)"
| "resubmissions (e # es) = resubmissions es"

primrec bstate :: "('b \<Rightarrow> int \<times> 'b) \<Rightarrow> 'b \<Rightarrow> nat \<Rightarrow> 'b" where
  "bstate NextBackOff ctor 0 = ctor"
| "bstate NextBackOff ctor (Suc i) = snd (NextBackOff (bstate NextBackOff ctor i))"

definition answer :: "('b \<Rightarrow> int \<times> 'b) \<Rightarrow> 'b \<Rightarrow> nat \<Rightarrow> int" where
  "answer NextBackOff ctor i = fst (NextBackOff (bstate NextBackOff ctor i))"

fun waiting :: "wloc \<Rightarrow> bool" where
  "waiting (w299_select d) = True"
| "waiting w305_select = True"
| "waiting l = False"

definition backoff_inv :: "('b \<Rightarrow> int \<times> 'b) \<Rightarrow> 'b \<Rightarrow> 'b worker \<Rightarrow> bool" where
  "backoff_inv NextBackOff ctor w =
     (current ctor w = bstate NextBackOff ctor (count_list (wtrace w) log_error)
      \<and> (\<forall>i < resubmissions (wtrace w). answer NextBackOff ctor i \<noteq> Stop)
      \<and> (in_loop (wloc w) \<longrightarrow> count_list (wtrace w) log_error = resubmissions (wtrace w))
      \<and> (waiting (wloc w) \<longrightarrow>
            count_list (wtrace w) log_error = Suc (resubmissions (wtrace w))
            \<and> answer NextBackOff ctor (resubmissions (wtrace w)) \<noteq> Stop)
      \<and> (resOut w = Some NewNoack \<longrightarrow>
            count_list (wtrace w) log_error = Suc (resubmissions (wtrace w))
            \<and> answer NextBackOff ctor (resubmissions (wtrace w)) = Stop)
      \<and> (resOut w \<noteq> None \<longrightarrow> \<not> in_loop (wloc w) \<and> \<not> waiting (wloc w))
      \<and> count_list (wtrace w) (metric ''retry.end_of_retries'' 1)
          = (if resOut w = Some NewNoack then 1 else 0))"

definition backoff_sys :: "('b \<Rightarrow> int \<times> 'b) \<Rightarrow> 'b \<Rightarrow> ('w, 'b) system \<Rightarrow> bool" where
  "backoff_sys NextBackOff ctor s =
     (backoffCtor (retry s) = ctor \<and> list_all (backoff_inv NextBackOff ctor) (workers s))"

text \<open>
  \<open>dispatched\<close> lists the payloads a trace sent to the wrapped output. The coordinator
  has dispatched one transaction per worker it started, and one more when it stands
  between its send and the \<open>go\<close> statement (\<open>pending\<close>).
\<close>

fun dispatched :: "event list \<Rightarrow> payload list" where
  "dispatched [] = []"
| "dispatched (delivered p # es) = p # dispatched es"
| "dispatched (e # es) = dispatched es"

fun pending :: "cloc \<Rightarrow> payload list" where
  "pending (c252_go p) = [p]"
| "pending l = []"

definition dispatch_inv :: "('w, 'b) system \<Rightarrow> bool" where
  "dispatch_inv s =
     (dispatched (ctrace s) = map ts_Payload (workers s) @ pending (cloc s))"

text \<open>The part of a trace before its first end-of-retries metric, and the part from
  it on. After the metric nothing more is sent to the wrapped output, and no response is
  written before it.\<close>

definition before_stop :: "event list \<Rightarrow> event list" where
  "before_stop tr = takeWhile (\<lambda>e. e \<noteq> metric ''retry.end_of_retries'' 1) tr"

definition after_stop :: "event list \<Rightarrow> event list" where
  "after_stop tr = dropWhile (\<lambda>e. e \<noteq> metric ''retry.end_of_retries'' 1) tr"

definition noack_shape :: "'b worker \<Rightarrow> bool" where
  "noack_shape w =
     (resubmissions (after_stop (wtrace w)) = 0
      \<and> (metric ''retry.end_of_retries'' 1 \<in> set (wtrace w) \<longrightarrow>
            responses (before_stop (wtrace w)) = [] \<and> resOut w = Some NewNoack))"

definition shape_sys :: "('w, 'b) system \<Rightarrow> bool" where
  "shape_sys s = (dispatch_inv s \<and> list_all noack_shape (workers s))"

text \<open>
  What the coordinator may do next after an operation: it receives a transaction only
  directly after a load of \<open>errLooped\<close> that found no worker retrying, and after a
  load that found one it loads again or starts its shutdown. \<open>gate_inv\<close> ties the place
  of the coordinator to the last operation of its trace.
\<close>

definition may_follow :: "event \<Rightarrow> event \<Rightarrow> bool" where
  "may_follow e e' =
     (case e' of
        pulled p \<Rightarrow> (case e of load_errLooped v \<Rightarrow> v \<le> 0 | _ \<Rightarrow> False)
      | load_errLooped v' \<Rightarrow> True
      | close_transactionsOut \<Rightarrow> True
      | _ \<Rightarrow> (case e of load_errLooped v \<Rightarrow> v \<le> 0 | _ \<Rightarrow> True))"

fun retrying_seen :: "event \<Rightarrow> bool" where
  "retrying_seen (load_errLooped v) = (0 < v)"
| "retrying_seen e = False"

fun gate_places :: "cloc \<Rightarrow> bool" where
  "gate_places c223_for = True"
| "gate_places c224_select = True"
| "gate_places c206_defer = True"
| "gate_places l = False"

definition gate_inv :: "('w, 'b) system \<Rightarrow> bool" where
  "gate_inv s =
     (successively may_follow (ctrace s)
      \<and> (cloc s = c214 \<longleftrightarrow> ctrace s = [])
      \<and> (ctrace s \<noteq> [] \<longrightarrow> hd (ctrace s) = gauge ''retry.running'' 1)
      \<and> (cloc s = c235_select \<longrightarrow> (\<exists>v\<le>0. last (ctrace s) = load_errLooped v))
      \<and> (ctrace s \<noteq> [] \<and> retrying_seen (last (ctrace s)) \<longrightarrow> gate_places (cloc s)))"

text \<open>
  The operations of the deferred function of \<open>loop\<close> (lines 205 to 213), and what of
  them the coordinator has performed when it stands at a given place, having polled the
  wrapped output \<open>k\<close> times in vain.
\<close>

fun is_shutdown :: "event \<Rightarrow> bool" where
  "is_shutdown close_transactionsOut = True"
| "is_shutdown wrapped_CloseAsync = True"
| "is_shutdown (wrapped_WaitForClose d ok) = True"
| "is_shutdown (gauge name k) = (k < 0)"
| "is_shutdown close_closedChan = True"
| "is_shutdown e = False"

fun shutdown_done :: "cloc \<Rightarrow> nat \<Rightarrow> event list" where
  "shutdown_done c207_defer k = [close_transactionsOut]"
| "shutdown_done c208_defer k =
     [close_transactionsOut, wrapped_CloseAsync]
     @ replicate k (wrapped_WaitForClose Second False)"
| "shutdown_done c211_defer k =
     [close_transactionsOut, wrapped_CloseAsync]
     @ replicate k (wrapped_WaitForClose Second False)
     @ [wrapped_WaitForClose Second True]"
| "shutdown_done c_returned k =
     [close_transactionsOut, wrapped_CloseAsync]
     @ replicate k (wrapped_WaitForClose Second False)
     @ [wrapped_WaitForClose Second True, gauge ''retry.running'' (- 1), close_closedChan]"
| "shutdown_done l k = []"

definition shutdown_inv :: "('w, 'b) system \<Rightarrow> bool" where
  "shutdown_inv s =
     (dropWhile (\<lambda>e. \<not> is_shutdown e) (ctrace s)
        = shutdown_done (cloc s) (count_list (ctrace s) (wrapped_WaitForClose Second False))
      \<and> (closedChan (retry s) = Closed \<longleftrightarrow> cloc s = c_returned))"

text \<open>The places of the coordinator before its deferred function runs.\<close>

fun before_defer :: "cloc \<Rightarrow> bool" where
  "before_defer c206_defer = False"
| "before_defer c207_defer = False"
| "before_defer c208_defer = False"
| "before_defer c211_defer = False"
| "before_defer c_returned = False"
| "before_defer l = True"

text \<open>
  The steps of worker \<open>i\<close> when the wrapped output answers every delivery with the
  error \<open>err\<close> and nothing else interferes: \<open>n\<close> rounds of failure, backoff and
  resubmission, a last failure, the response and the deferred function.
\<close>

definition fail_round :: "nat \<Rightarrow> error \<Rightarrow> action list" where
  "fail_round i err = [Worker i w_test_running, Worker i (w_recv (Some err)), Worker i w_handle]"

definition retry_round :: "nat \<Rightarrow> error \<Rightarrow> action list" where
  "retry_round i err = fail_round i err @ [Worker i w_timer, Worker i w_send]"

definition last_round :: "nat \<Rightarrow> error \<Rightarrow> action list" where
  "last_round i err =
     fail_round i err
     @ [Worker i w_respond, Worker i w_Done, Worker i w_decrement, Worker i w_default]"

definition always_failing :: "nat \<Rightarrow> nat \<Rightarrow> error \<Rightarrow> action list" where
  "always_failing i n err = concat (replicate n (retry_round i err)) @ last_round i err"

text \<open>
  The steps of worker \<open>i\<close> when the wrapped output answers \<open>m\<close> deliveries with the
  error \<open>err\<close> and the next one with a success, and the source takes the response.
\<close>

definition ack_round :: "nat \<Rightarrow> action list" where
  "ack_round i =
     [Worker i w_test_running, Worker i (w_recv None), Worker i w_handle, Worker i w_respond]"

definition succeeding :: "nat \<Rightarrow> nat \<Rightarrow> error \<Rightarrow> action list" where
  "succeeding i m err = concat (replicate m (retry_round i err)) @ ack_round i"

text \<open>Worker \<open>i\<close> stands at its loop test after \<open>k\<close> failures, with the output
  running and nothing closed.\<close>

definition ready :: "('b \<Rightarrow> int \<times> 'b) \<Rightarrow> nat \<Rightarrow> nat \<Rightarrow> ('w, 'b) system \<Rightarrow> bool" where
  "ready NextBackOff i k s =
     (i < length (workers s)
      \<and> wloc (workers s ! i) = w273_for
      \<and> running (retry s) = 1
      \<and> transactionsOut (retry s) = Open
      \<and> current (backoffCtor (retry s)) (workers s ! i)
          = bstate NextBackOff (backoffCtor (retry s)) k
      \<and> metric ''retry.send.success'' 1 \<notin> set (wtrace (workers s ! i)))"

text \<open>The steps of the deferred function of \<open>loop\<close> when the wrapped output reports
  closed at poll number \<open>k + 1\<close>.\<close>

definition polls :: "nat \<Rightarrow> action list" where
  "polls k =
     replicate k (Coordinator (c_WaitForClose False))
     @ [Coordinator (c_WaitForClose True), Coordinator c_close_closed]"

definition shutdown_steps :: "nat \<Rightarrow> action list" where
  "shutdown_steps k = [Coordinator c_close_out, Coordinator c_CloseAsync] @ polls k"

subsection \<open>Example values\<close>

definition example_retries_Config :: retries_Config where
  "example_retries_Config =
     \<lparr>MaxRetries = 2,
      Backoff = \<lparr>InitialInterval = ''100ms'', MaxInterval = ''1s'', MaxElapsedTime = ''0s''\<rparr>\<rparr>"

definition example_child :: Config where
  "example_child = MkConfig ''stdout'' (MkRetryConfig None example_retries_Config)"

definition example_Config :: Config where
  "example_Config = MkConfig ''retry'' (MkRetryConfig (Some example_child) example_retries_Config)"

text \<open>The output \<open>NewRetry\<close> builds for \<open>example_Config\<close>, with a wrapped output
  whose state counts the calls of its \<open>Consume\<close> and a backoff state that counts the
  calls of \<open>NextBackOff\<close>.\<close>

definition example_Retry :: "(nat, nat) Retry" where
  "example_Retry =
     \<lparr>running = 1, conf = Retry example_Config, wrapped = 0, backoffCtor = 0,
      transactionsIn = None, transactionsOut = Open, closeChan = Open, closedChan = Open\<rparr>"


text \<open>A \<open>GetCtor\<close> that rejects one malformed initial interval.\<close>

definition example_GetCtor :: "retries_Config \<Rightarrow> error + nat" where
  "example_GetCtor rc =
     (if InitialInterval (Backoff rc) = ''soon''
      then Inl (ErrorString ''invalid initial interval'')
      else Inr 0)"

definition example_bad_Config :: Config where
  "example_bad_Config =
     MkConfig ''retry''
       (MkRetryConfig (Some example_child)
          (example_retries_Config
             \<lparr>Backoff := (Backoff example_retries_Config)\<lparr>InitialInterval := ''soon''\<rparr>\<rparr>))"

definition example_Error :: "error \<Rightarrow> string" where
  "example_Error e =
     (case e of ErrorString m \<Rightarrow> m
      | ErrAlreadyStarted \<Rightarrow> ''already started''
      | ErrTimeout \<Rightarrow> ''timed out'')"

subsection \<open>Example runs\<close>

text \<open>A backoff that allows \<open>n\<close> retries: its state counts the intervals handed
  out; the call after the \<open>n\<close>-th answers \<open>Stop\<close>.\<close>

definition example_NextBackOff :: "nat \<Rightarrow> nat \<Rightarrow> int \<times> nat" where
  "example_NextBackOff n k = (if k < n then (100000000, Suc k) else (Stop, k))"

text \<open>The coordinator starts, accepts one transaction, dispatches it and starts its
  worker.\<close>

definition sched_accept :: "action list" where
  "sched_accept =
     [Coordinator c_Incr, Coordinator c_test_running, Coordinator c_test_errLooped,
      Coordinator (c_recv (Some [''m''])), Coordinator c_send, Coordinator c_go]"

text \<open>Worker 0 receives a failure and handles it; worker 0 sits out the backoff and
  resubmits.\<close>

definition sched_fail :: "action list" where
  "sched_fail =
     [Worker 0 w_test_running, Worker 0 (w_recv (Some (ErrorString ''refused''))),
      Worker 0 w_handle]"

definition sched_retry :: "action list" where
  "sched_retry = [Worker 0 w_timer, Worker 0 w_send]"

text \<open>One transaction whose delivery fails three times, with a budget of two
  retries.\<close>

definition sched_exhausted :: "action list" where
  "sched_exhausted =
     sched_accept @ sched_fail @ sched_retry @ sched_fail @ sched_retry @ sched_fail
     @ [Worker 0 w_respond, Worker 0 w_Done, Worker 0 w_decrement, Worker 0 w_default]"

text \<open>The transaction is accepted while running; then \<open>CloseAsync\<close> is called and the
  worker, waiting for the response of the wrapped output, takes the closed
  \<open>closeChan\<close> and returns.\<close>

definition sched_cancelled :: "action list" where
  "sched_cancelled =
     sched_accept
     @ [Worker 0 w_test_running, Closer cas, Closer close_chan, Worker 0 w_cancel,
        Worker 0 w_Done]"

text \<open>The first delivery fails; \<open>CloseAsync\<close> is called while the worker waits out
  its first backoff interval, and the worker takes the closed \<open>closeChan\<close> and
  returns.\<close>

definition sched_abandoned :: "action list" where
  "sched_abandoned =
     sched_accept @ sched_fail
     @ [Closer cas, Closer close_chan, Worker 0 w_cancel, Worker 0 w_Done,
        Worker 0 w_decrement, Worker 0 w_default]"

text \<open>\<open>CloseAsync\<close> has swapped \<open>running\<close> and not yet closed \<open>closeChan\<close>
  when the worker tests its loop condition; the source takes what the worker sends.\<close>

definition sched_stopping :: "action list" where
  "sched_stopping =
     sched_accept @ [Closer cas, Worker 0 w_test_running, Worker 0 w_respond]"

text \<open>The coordinator has loaded \<open>errLooped\<close> as 0 and waits for the next
  transaction; worker 0 then handles a failure and raises the counter to 1.\<close>

definition sched_before_pull :: "action list" where
  "sched_before_pull =
     sched_accept @ [Coordinator c_test_running, Coordinator c_test_errLooped] @ sched_fail"

text \<open>The source then closes its channel: the coordinator leaves the loop and
  closes \<open>transactionsOut\<close>, and worker 0, its backoff over, resubmits.\<close>

definition sched_closed_resubmit :: "action list" where
  "sched_closed_resubmit =
     sched_before_pull
     @ [Coordinator (c_recv None), Coordinator c_close_out, Worker 0 w_timer, Worker 0 w_send]"

text \<open>The source closes its channel; the coordinator leaves the loop and shuts down,
  the wrapped output reporting closed at the second poll.\<close>

definition sched_shutdown :: "action list" where
  "sched_shutdown =
     [Coordinator c_Incr, Coordinator c_test_running, Coordinator c_test_errLooped,
      Coordinator (c_recv None), Coordinator c_close_out, Coordinator c_CloseAsync,
      Coordinator (c_WaitForClose False), Coordinator (c_WaitForClose True),
      Coordinator c_close_closed]"

section \<open>Properties\<close>

text \<open>
  C10. \<open>NewRetryConfig\<close> returns a nil \<open>Output\<close> and exactly the library default
  \<open>retries.NewConfig()\<close>: the overrides written to the local \<open>rConf\<close> never reach
  the returned value.
\<close>

theorem NewRetryConfig_returns_library_default:
  "NewRetryConfig d = MkRetryConfig None d
   \<and> Output (NewRetryConfig d) = None
   \<and> Config (NewRetryConfig d) = d"
  by (simp add: NewRetryConfig_def Let_def)

subsection \<open>The constructor\<close>

text \<open>
  C8, as amended. \<open>NewRetry\<close> returns an error exactly when the child configuration is
  absent, or the child fails to construct, or \<open>GetCtor\<close> of the retry settings fails.
  With no child the error is the fixed text; a child's construction error is wrapped as
  \<open>failed to create output '<type>': <error>\<close> with the child's declared type name; an
  error of \<open>GetCtor\<close> is returned as it is.
\<close>

theorem NewRetry_failure_cases:
  "((\<exists>e. NewRetry New GetCtor Error c = Inl e) \<longleftrightarrow>
      (Output (Retry c) = None
       \<or> (\<exists>child. Output (Retry c) = Some child
              \<and> (isl (New child) \<or> isl (GetCtor (Config (Retry c)))))))
   \<and> (Output (Retry c) = None \<longrightarrow>
        NewRetry New GetCtor Error c
          = Inl (ErrorString ''cannot create retry output without a child''))
   \<and> (\<forall>child err. Output (Retry c) = Some child \<and> New child = Inl err \<longrightarrow>
        NewRetry New GetCtor Error c
          = Inl (ErrorString (''failed to create output '' @ [CHR 0x27] @ Type child
                              @ [CHR 0x27] @ '': '' @ Error err)))
   \<and> (\<forall>child w err. Output (Retry c) = Some child \<and> New child = Inr w
          \<and> GetCtor (Config (Retry c)) = Inl err \<longrightarrow>
        NewRetry New GetCtor Error c = Inl err)"
  by (auto simp: NewRetry_def split: option.splits sum.splits)

theorem NewRetry_failure_cases_witness:
  "Output (Retry example_Config) = Some example_child
   \<and> NewRetry (\<lambda>c. Inl (ErrorString ''no such type'') :: error + nat) example_GetCtor
        example_Error example_Config
       = Inl (ErrorString (''failed to create output '' @ [CHR 0x27] @ ''stdout''
                           @ [CHR 0x27] @ '': no such type''))"
proof -
  have h: "Output (Retry example_Config) = Some example_child"
    by (simp add: example_Config_def)
  have t: "Type example_child = ''stdout''"
    by (simp add: example_child_def)
  show ?thesis
    using h t
      NewRetry_failure_cases[of "\<lambda>c. Inl (ErrorString ''no such type'') :: error + nat"
        example_GetCtor example_Error example_Config]
    by (simp add: example_Error_def)
qed

text \<open>
  The claim as stated names two causes only. With a child that is present and constructs,
  \<open>NewRetry\<close> still fails when \<open>GetCtor\<close> rejects the retry settings.
\<close>

theorem NewRetry_backoff_counterexample:
  "Output (Retry example_bad_Config) = Some example_child
   \<and> (\<lambda>c. Inr 0 :: error + nat) example_child = Inr 0
   \<and> NewRetry (\<lambda>c. Inr 0 :: error + nat) example_GetCtor example_Error example_bad_Config
       = Inl (ErrorString ''invalid initial interval'')"
  by (simp add: NewRetry_def example_bad_Config_def example_GetCtor_def
        example_retries_Config_def)

subsection \<open>Consume\<close>



subsection \<open>CloseAsync\<close>

lemma CloseAsync_step_inv:
  "lifecycle_inv s \<Longrightarrow> CloseAsync_step a s \<noteq> Panicked p"
  "lifecycle_inv s \<Longrightarrow> CloseAsync_step a s = Ok (e, s') \<Longrightarrow>
     lifecycle_inv s'
     \<and> (if e = swapped then 1 else 0) + (if running (fst s') = 1 then 1 else 0)
          = (if running (fst s) = 1 then 1 else (0::nat))
     \<and> (if e = closed then 1 else 0) + (if closeChan (fst s') = Closed then 0 else 1)
          = (if closeChan (fst s) = Closed then 0 else (1::nat))
     \<and> (a = cas \<longrightarrow> running (fst s') = 0)
     \<and> (running (fst s) = 0 \<longrightarrow> running (fst s') = 0)"
  by (cases a; cases s; cases "snd s";
      auto simp: lifecycle_inv_def CompareAndSwapInt32_def split: if_splits sum.splits)+

lemma CloseAsync_run_inv:
  "lifecycle_inv s \<Longrightarrow>
     (\<forall>p. CloseAsync_run as s \<noteq> Panicked p)
     \<and> (\<forall>es s'. CloseAsync_run as s = Ok (es, s') \<longrightarrow>
          lifecycle_inv s'
          \<and> count_list es swapped + (if running (fst s') = 1 then 1 else 0)
              = (if running (fst s) = 1 then 1 else 0)
          \<and> count_list es closed + (if closeChan (fst s') = Closed then 0 else 1)
              = (if closeChan (fst s) = Closed then 0 else 1)
          \<and> (running (fst s) = 0 \<or> cas \<in> set as \<longrightarrow> running (fst s') = 0))"
proof (induction as arbitrary: s)
  case Nil
  then show ?case by auto
next
  case (Cons a as)
  show ?case
  proof (cases "CloseAsync_step a s")
    case Disabled
    then show ?thesis by simp
  next
    case (Panicked q)
    with Cons.prems CloseAsync_step_inv(1) show ?thesis by blast
  next
    case (Ok x)
    obtain e s1 where x: "x = (e, s1)" by (cases x)
    note st = CloseAsync_step_inv(2)[OF Cons.prems Ok[unfolded x]]
    then have inv1: "lifecycle_inv s1" by simp
    show ?thesis
    proof (cases "CloseAsync_run as s1")
      case Disabled
      then show ?thesis using Ok x by simp
    next
      case (Panicked q)
      with Cons.IH[OF inv1] show ?thesis by blast
    next
      case ok2: (Ok y)
      obtain es1 s2 where y: "y = (es1, s2)" by (cases y)
      note ih = conjunct2[OF Cons.IH[OF inv1], rule_format, OF ok2[unfolded y]]
      have st1: "(if e = swapped then 1 else 0) + (if running (fst s1) = 1 then 1 else 0)
          = (if running (fst s) = 1 then 1 else (0::nat))"
        and st2: "(if e = closed then 1 else 0) + (if closeChan (fst s1) = Closed then 0 else 1)
          = (if closeChan (fst s) = Closed then 0 else (1::nat))"
        and st3: "a = cas \<longrightarrow> running (fst s1) = 0"
        and st4: "running (fst s) = 0 \<longrightarrow> running (fst s1) = 0"
        using st by blast+
      have ih1: "count_list es1 swapped + (if running (fst s2) = 1 then 1 else 0)
              = (if running (fst s1) = 1 then 1 else 0)"
        and ih2: "count_list es1 closed + (if closeChan (fst s2) = Closed then 0 else 1)
              = (if closeChan (fst s1) = Closed then 0 else 1)"
        and ih3: "running (fst s1) = 0 \<or> cas \<in> set as \<longrightarrow> running (fst s2) = 0"
        using ih by blast+
      have run: "CloseAsync_run (a # as) s = Ok (e # es1, s2)"
        using Ok x ok2 y by simp
      have "lifecycle_inv s2" using ih by simp
      moreover have "count_list (e # es1) swapped + (if running (fst s2) = 1 then 1 else 0)
              = (if running (fst s) = 1 then 1 else 0)"
        using st1 ih1 by (cases "e = swapped") simp_all
      moreover have "count_list (e # es1) closed + (if closeChan (fst s2) = Closed then 0 else 1)
              = (if closeChan (fst s) = Closed then 0 else 1)"
        using st2 ih2 by (cases "e = closed") simp_all
      moreover have "running (fst s) = 0 \<or> cas \<in> set (a # as) \<longrightarrow> running (fst s2) = 0"
        using st3 st4 ih3 by auto
      ultimately show ?thesis unfolding run
        by (simp only: outcome.inject outcome.distinct prod.inject) blast
    qed
  qed
qed

text \<open>
  C5. From the state \<open>NewRetry\<close> builds (\<open>running = 1\<close>, \<open>closeChan\<close> open), in
  every interleaving of the two halves of any number of \<open>CloseAsync\<close> calls: no step
  panics; at most one call swaps \<open>running\<close>, and exactly one once any call has run its
  swap; the channel is closed at most once, only by the call that swapped, and is closed
  once that call is through. A call run on its own sets \<open>running\<close> to 0 and closes the
  channel, and a call after it changes nothing.
\<close>

theorem CloseAsync_idempotent:
  "running r = 1 \<Longrightarrow> closeChan r = Open \<Longrightarrow>
     (\<forall>p. CloseAsync_run as (r, 0) \<noteq> Panicked p)
     \<and> (\<forall>es r' n. CloseAsync_run as (r, 0) = Ok (es, r', n) \<longrightarrow>
           count_list es swapped \<le> 1
           \<and> count_list es closed \<le> count_list es swapped
           \<and> (cas \<in> set as \<longrightarrow> count_list es swapped = 1 \<and> running r' = 0)
           \<and> (cas \<in> set as \<and> n = 0 \<longrightarrow> count_list es closed = 1 \<and> closeChan r' = Closed))
     \<and> CloseAsync r = Inr (r\<lparr>running := 0, closeChan := Closed\<rparr>)
     \<and> CloseAsync (r\<lparr>running := 0, closeChan := Closed\<rparr>)
         = Inr (r\<lparr>running := 0, closeChan := Closed\<rparr>)"
proof -
  assume r: "running r = 1" "closeChan r = Open"
  then have inv: "lifecycle_inv (r, 0)" by (simp add: lifecycle_inv_def)
  note gen = CloseAsync_run_inv[OF inv, of as]
  have a: "\<forall>p. CloseAsync_run as (r, 0) \<noteq> Panicked p" using gen by blast
  have b: "count_list es swapped \<le> 1
           \<and> count_list es closed \<le> count_list es swapped
           \<and> (cas \<in> set as \<longrightarrow> count_list es swapped = 1 \<and> running r' = 0)
           \<and> (cas \<in> set as \<and> n = 0 \<longrightarrow> count_list es closed = 1 \<and> closeChan r' = Closed)"
    if ok: "CloseAsync_run as (r, 0) = Ok (es, r', n)" for es r' n
    using conjunct2[OF gen, rule_format, OF ok] r
    by (auto simp: lifecycle_inv_def split: if_splits)
  have c: "CloseAsync r = Inr (r\<lparr>running := 0, closeChan := Closed\<rparr>)"
    using r by (simp add: CloseAsync_def CompareAndSwapInt32_def)
  have d: "CloseAsync (r\<lparr>running := 0, closeChan := Closed\<rparr>)
         = Inr (r\<lparr>running := 0, closeChan := Closed\<rparr>)"
    by (simp add: CloseAsync_def CompareAndSwapInt32_def)
  from a b c d show ?thesis by blast
qed

theorem CloseAsync_idempotent_witness:
  "running example_Retry = 1 \<and> closeChan example_Retry = Open
   \<and> CloseAsync_run [cas, cas, close_chan, cas] (example_Retry, 0)
       = Ok ([swapped, not_swapped, closed, not_swapped],
             example_Retry\<lparr>running := 0, closeChan := Closed\<rparr>, 0)
   \<and> CloseAsync example_Retry = Inr (example_Retry\<lparr>running := 0, closeChan := Closed\<rparr>)"
proof -
  have h: "running example_Retry = 1" "closeChan example_Retry = Open"
    by (simp_all add: example_Retry_def)
  have run: "CloseAsync_run [cas, cas, close_chan, cas] (example_Retry, 0)
       = Ok ([swapped, not_swapped, closed, not_swapped],
             example_Retry\<lparr>running := 0, closeChan := Closed\<rparr>, 0)"
    by (simp add: example_Retry_def CompareAndSwapInt32_def)
  show ?thesis
    using h run CloseAsync_idempotent[OF h, of "[cas, cas, close_chan, cas]"] by simp
qed

subsection \<open>WaitForClose\<close>

lemma nth_01: "[0, Suc 0] ! (pick mod Suc (Suc 0)) = pick mod Suc (Suc 0)"
proof -
  have "pick mod Suc (Suc 0) < Suc (Suc 0)" by simp
  then show ?thesis by (cases "pick mod Suc (Suc 0)") auto
qed

lemma select2:
  "select [a, b] pick = (if a \<and> b then Some (pick mod Suc (Suc 0)) else if a then Some 0 else if b then Some 1 else None)"
  by (simp add: select_def upt_rec[of 0] upt_rec[of 1] upt_rec[of "Suc 0"] Let_def nth_01)

text \<open>
  C6, as amended. \<open>WaitForClose\<close> returns the timeout error only when its timer has
  expired, and nil only when \<open>closedChan\<close> is closed. When the channel is closed and the
  timer has not expired it returns nil; when the timer has expired and the channel is
  open it returns the timeout error; when neither holds it blocks.
\<close>

theorem WaitForClose_outcomes:
  "(WaitForClose r expired pick = Some (Some ErrTimeout) \<longrightarrow> expired)
   \<and> (WaitForClose r expired pick = Some None \<longrightarrow> closedChan r = Closed)
   \<and> (closedChan r = Closed \<and> \<not> expired \<longrightarrow> WaitForClose r expired pick = Some None)
   \<and> (closedChan r \<noteq> Closed \<and> expired \<longrightarrow> WaitForClose r expired pick = Some (Some ErrTimeout))
   \<and> (closedChan r \<noteq> Closed \<and> \<not> expired \<longrightarrow> WaitForClose r expired pick = None)"
  by (auto simp: WaitForClose_def select2 split: if_splits option.splits)

theorem WaitForClose_outcomes_witness:
  "closedChan (example_Retry\<lparr>closedChan := Closed\<rparr>) = Closed
   \<and> WaitForClose (example_Retry\<lparr>closedChan := Closed\<rparr>) False 1 = Some None
   \<and> WaitForClose example_Retry True 0 = Some (Some ErrTimeout)"
proof -
  have h: "closedChan (example_Retry\<lparr>closedChan := Closed\<rparr>) = Closed \<and> \<not> False"
    and g: "closedChan example_Retry \<noteq> Closed \<and> True"
    by (simp_all add: example_Retry_def)
  have a: "WaitForClose (example_Retry\<lparr>closedChan := Closed\<rparr>) False 1 = Some None"
    using WaitForClose_outcomes[of "example_Retry\<lparr>closedChan := Closed\<rparr>" False 1] h
    by blast
  have b: "WaitForClose example_Retry True 0 = Some (Some ErrTimeout)"
    using WaitForClose_outcomes[of example_Retry True 0] g by blast
  from h a b show ?thesis by blast
qed

text \<open>
  With \<open>closedChan\<close> closed and the timer expired as well (a timeout of zero, or a
  caller that was not scheduled in time), both cases of the select are ready and the
  timer's may be chosen: the call returns the timeout error after the closed signal.
\<close>

theorem WaitForClose_counterexample:
  "closedChan (example_Retry\<lparr>closedChan := Closed\<rparr>) = Closed
   \<and> WaitForClose (example_Retry\<lparr>closedChan := Closed\<rparr>) True 1 = Some (Some ErrTimeout)"
  by (simp add: WaitForClose_def select2)

subsection \<open>Steps of the goroutines\<close>

lemma adds_append: "adds (xs @ ys) = adds xs @ adds ys"
  by (induction xs rule: adds.induct) auto

lemma handle_response_cases:
  obtains
    (success) "res = None"
      "handle_response N c res w =
         ([metric ''retry.send.success'' 1,
           metric ''retry.parts.send.success'' (int (length (ts_Payload w)))],
          w\<lparr>resOut := Some NewAck, wloc := w318_select\<rparr>)"
  | (stop) err b' where "res = Some err" "N (current c w) = (Stop, b')"
      "handle_response N c res w =
         ((if \<not> inErrLoop w then [errLooped_add 1] else [])
            @ [metric ''retry.send.error'' 1, log_error, metric ''retry.end_of_retries'' 1],
          w\<lparr>inErrLoop := True, backOff := Some b', resOut := Some NewNoack,
            wloc := w318_select\<rparr>)"
  | (continue) err d b' where "res = Some err" "N (current c w) = (d, b')" "d \<noteq> Stop"
      "handle_response N c res w =
         ((if \<not> inErrLoop w then [errLooped_add 1] else [])
            @ [metric ''retry.send.error'' 1, log_error],
          w\<lparr>inErrLoop := True, backOff := Some b', wloc := w299_select d\<rparr>)"
proof (cases res)
  case None
  then show ?thesis using success by (simp add: handle_response_def)
next
  case (Some err)
  obtain d b' where nb: "N (current c w) = (d, b')" by (cases "N (current c w)")
  show ?thesis
  proof (cases "d = Stop")
    case True
    show ?thesis
      using stop[of err b'] Some nb True
      by (simp add: handle_response_def current_def Let_def)
  next
    case False
    show ?thesis
      using continue[of err d b'] Some nb False
      by (simp add: handle_response_def current_def Let_def)
  qed
qed

lemma wstep_elim [consumes 1, case_names test recv success stop continue timer send respond
    cancel Done decrement interrupt default]:
  assumes "wstep N r g a w = Ok (evs, w')"
  obtains
    (test) "a = w_test_running" "wloc w = w273_for" "evs = []"
      "w' = w\<lparr>wloc := (if running r = 1 then w275_select else w318_select)\<rparr>"
  | (recv) res where "a = w_recv res" "wloc w = w275_select" "evs = []"
      "w' = w\<lparr>wloc := w281_if res\<rparr>"
  | (success) "a = w_handle" "wloc w = w281_if None"
      "evs = [metric ''retry.send.success'' 1,
              metric ''retry.parts.send.success'' (int (length (ts_Payload w)))]"
      "w' = w\<lparr>resOut := Some NewAck, wloc := w318_select, wtrace := wtrace w @ evs\<rparr>"
  | (stop) err b' where "a = w_handle" "wloc w = w281_if (Some err)"
      "N (current (backoffCtor r) w) = (Stop, b')"
      "evs = (if \<not> inErrLoop w then [errLooped_add 1] else [])
            @ [metric ''retry.send.error'' 1, log_error, metric ''retry.end_of_retries'' 1]"
      "w' = w\<lparr>inErrLoop := True, backOff := Some b', resOut := Some NewNoack,
              wloc := w318_select, wtrace := wtrace w @ evs\<rparr>"
  | (continue) err d b' where "a = w_handle" "wloc w = w281_if (Some err)"
      "N (current (backoffCtor r) w) = (d, b')" "d \<noteq> Stop"
      "evs = (if \<not> inErrLoop w then [errLooped_add 1] else [])
            @ [metric ''retry.send.error'' 1, log_error]"
      "w' = w\<lparr>inErrLoop := True, backOff := Some b', wloc := w299_select d,
              wtrace := wtrace w @ evs\<rparr>"
  | (timer) d where "a = w_timer" "wloc w = w299_select d" "evs = []"
      "w' = w\<lparr>wloc := w305_select\<rparr>"
  | (send) "a = w_send" "wloc w = w305_select" "transactionsOut r \<noteq> Closed"
      "evs = [delivered (ts_Payload w)]"
      "w' = w\<lparr>wloc := w273_for, wtrace := wtrace w @ evs\<rparr>"
  | (respond) "a = w_respond" "wloc w = w318_select" "evs = [responded (resOut w)]"
      "w' = w\<lparr>wloc := w259_defer, wtrace := wtrace w @ evs\<rparr>"
  | (cancel) "a = w_cancel" "closeChan r = Closed" "cancellable (wloc w)" "evs = []"
      "w' = w\<lparr>wloc := w259_defer\<rparr>"
  | (Done) "a = w_Done" "wloc w = w259_defer" "evs = [wg_Done]"
      "w' = w\<lparr>wloc := (if inErrLoop w then w261_defer else w_returned),
              wtrace := wtrace w @ evs\<rparr>"
  | (decrement) "a = w_decrement" "wloc w = w261_defer" "evs = [errLooped_add (- 1)]"
      "w' = w\<lparr>wloc := w265_select, wtrace := wtrace w @ evs\<rparr>"
  | (interrupt) "a = w_interrupt" "wloc w = w265_select" "g" "evs = [interrupt_sent]"
      "w' = w\<lparr>wloc := w_returned, wtrace := wtrace w @ evs\<rparr>"
  | (default) "a = w_default" "wloc w = w265_select" "evs = []"
      "w' = w\<lparr>wloc := w_returned\<rparr>"
proof (cases a)
  case w_test_running
  with assms test show ?thesis
    by (cases "wloc w") (auto simp: wstep_def wcore_def)
next
  case (w_recv res)
  with assms recv[of res] show ?thesis
    by (cases "wloc w") (auto simp: wstep_def wcore_def)
next
  case w_handle
  show ?thesis
  proof (cases "wloc w")
    case (w281_if res)
    have st: "Ok (evs, w') = (case handle_response N (backoffCtor r) res w of
                (evs, w') \<Rightarrow> Ok (evs, w'\<lparr>wtrace := wtrace w @ evs\<rparr>))"
      using assms w_handle w281_if by (simp add: wstep_def wcore_def split: prod.splits)
    show ?thesis
    proof (cases rule: handle_response_cases[of res N "backoffCtor r" w])
      case success': success
      with st w_handle w281_if success show ?thesis by auto
    next
      case stop': (stop err b')
      with st w_handle w281_if stop[of err b'] show ?thesis by auto
    next
      case continue': (continue err d b')
      with st w_handle w281_if continue[of err d b'] show ?thesis by auto
    qed
  qed (use assms w_handle in \<open>simp_all add: wstep_def wcore_def\<close>)
next
  case w_timer
  with assms timer show ?thesis
    by (cases "wloc w") (auto simp: wstep_def wcore_def)
next
  case w_send
  with assms send show ?thesis
    by (cases "wloc w") (auto simp: wstep_def wcore_def split: if_splits)
next
  case w_respond
  with assms respond show ?thesis
    by (cases "wloc w") (auto simp: wstep_def wcore_def)
next
  case w_cancel
  with assms cancel show ?thesis
    by (auto simp: wstep_def wcore_def split: if_splits)
next
  case w_Done
  with assms Done show ?thesis
    by (cases "wloc w") (auto simp: wstep_def wcore_def)
next
  case w_decrement
  with assms decrement show ?thesis
    by (cases "wloc w") (auto simp: wstep_def wcore_def)
next
  case w_interrupt
  with assms interrupt show ?thesis
    by (cases "wloc w") (auto simp: wstep_def wcore_def split: if_splits)
next
  case w_default
  with assms default show ?thesis
    by (cases "wloc w") (auto simp: wstep_def wcore_def)
qed

lemma cancellable_iff:
  "cancellable l \<longleftrightarrow>
     l = w275_select \<or> (\<exists>d. l = w299_select d) \<or> l = w305_select \<or> l = w318_select"
  by (cases l) auto

lemma wstep_counter_inv:
  "wstep N r g a w = Ok (evs, w') \<Longrightarrow> counter_inv w \<Longrightarrow> counter_inv w'"
  by (erule wstep_elim) (auto simp: counter_inv_def adds_append cancellable_iff)

lemma ccancellable_iff:
  "ccancellable l \<longleftrightarrow> l = c224_select \<or> l = c235_select \<or> (\<exists>p. l = c246_select p)"
  by (cases l) auto

lemma close_Inr: "close c = Inr c' \<longleftrightarrow> c = Open \<and> c' = Closed"
  by (cases c) auto

lemma cstep_elim [consumes 1, case_names Incr test_running test_errLooped timer end_of_input
    recv send go cancel Wait close_out CloseAsync WaitForClose close_closed]:
  assumes "cstep r e g a l = Ok (evs, l')"
  obtains
    (Incr) "a = c_Incr" "l = c214" "evs = [gauge ''retry.running'' 1]" "l' = c220_for"
  | (test_running) "a = c_test_running" "l = c220_for" "evs = [load_running (running r)]"
      "l' = (if running r = 1 then c223_for else c326_Wait)"
  | (test_errLooped) "a = c_test_errLooped" "l = c223_for" "evs = [load_errLooped e]"
      "l' = (if e > 0 then c224_select else c235_select)"
  | (timer) "a = c_timer" "l = c224_select" "evs = []" "l' = c223_for"
  | (end_of_input) "a = c_recv None" "l = c235_select" "evs = []" "l' = c206_defer"
  | (recv) p where "a = c_recv (Some p)" "l = c235_select"
      "evs = [pulled p, metric ''retry.count'' 1]" "l' = c246_select p"
  | (send) p where "a = c_send" "l = c246_select p" "transactionsOut r \<noteq> Closed"
      "evs = [delivered p]" "l' = c252_go p"
  | (go) p where "a = c_go" "l = c252_go p" "evs = [spawned p]" "l' = c220_for"
  | (cancel) "a = c_cancel" "closeChan r = Closed" "ccancellable l" "evs = []"
      "l' = c206_defer"
  | (Wait) "a = c_Wait" "l = c326_Wait" "g = 0" "evs = []" "l' = c206_defer"
  | (close_out) "a = c_close_out" "l = c206_defer" "transactionsOut r = Open"
      "evs = [close_transactionsOut]" "l' = c207_defer"
  | (CloseAsync) "a = c_CloseAsync" "l = c207_defer" "evs = [wrapped_CloseAsync]"
      "l' = c208_defer"
  | (WaitForClose) ok where "a = c_WaitForClose ok" "l = c208_defer"
      "evs = [wrapped_WaitForClose Second ok]" "l' = (if ok then c211_defer else c208_defer)"
  | (close_closed) "a = c_close_closed" "l = c211_defer" "closedChan r = Open"
      "evs = [gauge ''retry.running'' (- 1), close_closedChan]" "l' = c_returned"
proof (cases a)
  case c_Incr
  with assms Incr show ?thesis by (cases l) (auto simp: cstep_def)
next
  case c_test_running
  with assms test_running show ?thesis by (cases l) (auto simp: cstep_def)
next
  case c_test_errLooped
  with assms test_errLooped show ?thesis by (cases l) (auto simp: cstep_def)
next
  case c_timer
  with assms timer show ?thesis by (cases l) (auto simp: cstep_def)
next
  case (c_recv tran)
  with assms end_of_input recv show ?thesis
    by (cases l; cases tran) (auto simp: cstep_def)
next
  case c_send
  with assms send show ?thesis by (cases l) (auto simp: cstep_def split: if_splits)
next
  case c_go
  with assms go show ?thesis by (cases l) (auto simp: cstep_def)
next
  case c_cancel
  with assms cancel show ?thesis by (auto simp: cstep_def split: if_splits)
next
  case c_Wait
  with assms Wait show ?thesis by (cases l) (auto simp: cstep_def split: if_splits)
next
  case c_close_out
  with assms close_out show ?thesis
    by (cases l) (auto simp: cstep_def close_Inr split: sum.splits)
next
  case c_CloseAsync
  with assms CloseAsync show ?thesis by (cases l) (auto simp: cstep_def)
next
  case (c_WaitForClose ok)
  with assms WaitForClose show ?thesis by (cases l) (auto simp: cstep_def)
next
  case c_close_closed
  with assms close_closed show ?thesis
    by (cases l) (auto simp: cstep_def close_Inr split: sum.splits)
qed

lemma exec_elim [consumes 1, case_names coordinator worker closer]:
  assumes "exec N a s = Ok s'"
  obtains
    (coordinator) ca evs l where "a = Coordinator ca"
      "cstep (retry s) (errLooped s) (wg s) ca (cloc s) = Ok (evs, l)"
      "s' = effects evs (s\<lparr>cloc := l, ctrace := ctrace s @ evs\<rparr>)"
  | (worker) i wa evs w where "a = Worker i wa" "i < length (workers s)"
      "wstep N (retry s) (cloc s = c224_select) wa (workers s ! i) = Ok (evs, w)"
      "s' = effects evs (s\<lparr>workers := (workers s)[i := w]\<rparr>)"
  | (closer) cl e r n where "a = Closer cl"
      "CloseAsync_step cl (retry s, closing s) = Ok (e, r, n)"
      "s' = s\<lparr>retry := r, closing := n\<rparr>"
proof (cases a)
  case (Coordinator ca)
  with assms coordinator show ?thesis
    by (auto split: outcome.splits)
next
  case (Worker i wa)
  with assms worker show ?thesis
    by (auto split: outcome.splits if_splits)
next
  case (Closer cl)
  with assms closer show ?thesis
    by (auto split: outcome.splits)
qed

lemma run_invariant:
  assumes "run N as s0 = Ok s" and "P s0"
    and "\<And>a t t'. P t \<Longrightarrow> exec N a t = Ok t' \<Longrightarrow> P t'"
  shows "P s"
  using assms(1,2)
proof (induction as arbitrary: s0)
  case Nil
  then show ?case by simp
next
  case (Cons a as)
  then show ?case
    by (cases "exec N a s0") (auto intro: assms(3))
qed

lemma effects_Nil [simp]: "effects [] s = s"
  by (simp add: effects_def)

lemma effects_Cons [simp]: "effects (e # es) s = effects es (effect e s)"
  by (simp add: effects_def)

lemma errLooped_effects: "errLooped (effects evs s) = errLooped s + sum_list (adds evs)"
proof (induction evs arbitrary: s)
  case Nil
  show ?case by simp
next
  case (Cons e evs)
  show ?case by (cases e) (simp_all add: Cons.IH)
qed

lemma workers_effects: "workers (effects evs s) = workers s @ spawns evs"
proof (induction evs arbitrary: s)
  case Nil
  show ?case by simp
next
  case (Cons e evs)
  show ?case by (cases e) (simp_all add: Cons.IH)
qed

lemma closing_effects: "closing (effects evs s) = closing s"
proof (induction evs arbitrary: s)
  case Nil
  show ?case by simp
next
  case (Cons e evs)
  show ?case by (cases e) (simp_all add: Cons.IH)
qed

lemma ctrace_effects: "ctrace (effects evs s) = ctrace s"
proof (induction evs arbitrary: s)
  case Nil
  show ?case by simp
next
  case (Cons e evs)
  show ?case by (cases e) (simp_all add: Cons.IH)
qed

lemma retry_effects:
  "running (retry (effects evs s)) = running (retry s)
   \<and> closeChan (retry (effects evs s)) = closeChan (retry s)
   \<and> backoffCtor (retry (effects evs s)) = backoffCtor (retry s)
   \<and> transactionsOut (retry (effects evs s))
       = (if close_transactionsOut \<in> set evs then Closed else transactionsOut (retry s))
   \<and> closedChan (retry (effects evs s))
       = (if close_closedChan \<in> set evs then Closed else closedChan (retry s))"
proof (induction evs arbitrary: s)
  case Nil
  show ?case by simp
next
  case (Cons e evs)
  show ?case by (cases e) (simp_all add: Cons.IH)
qed

lemma cloc_effects:
  "cloc (effects evs s) = (if interrupt_sent \<in> set evs then c223_for else cloc s)"
proof (induction evs arbitrary: s)
  case Nil
  show ?case by simp
next
  case (Cons e evs)
  show ?case by (cases e) (simp_all add: Cons.IH)
qed

lemma wstep_trace: "wstep N r g a w = Ok (evs, w') \<Longrightarrow> wtrace w' = wtrace w @ evs"
  by (erule wstep_elim) auto

lemma wstep_spawns: "wstep N r g a w = Ok (evs, w') \<Longrightarrow> spawns evs = []"
  by (erule wstep_elim) auto

lemma cstep_adds: "cstep r e g a l = Ok (evs, l') \<Longrightarrow> sum_list (adds evs) = 0"
  by (erule cstep_elim) auto

lemma sum_list_map_update:
  fixes f :: "'a \<Rightarrow> int"
  shows "i < length ws \<Longrightarrow>
    sum_list (map f (ws[i := w])) = sum_list (map f ws) - f (ws ! i) + f w"
proof (induction ws arbitrary: i)
  case Nil
  then show ?case by simp
next
  case (Cons x ws)
  then show ?case by (cases i) auto
qed

lemma list_all_update:
  "list_all P ws \<Longrightarrow> P w \<Longrightarrow> list_all P (ws[i := w])"
  unfolding list_all_iff using set_update_subset_insert[of ws i w] by auto

lemma counter_inv_new [simp]: "counter_inv (new_worker p)"
  by (simp add: counter_inv_def new_worker_def)

lemma list_all_spawns: "(\<And>p. P (new_worker p)) \<Longrightarrow> list_all P (spawns evs)"
  by (induction evs rule: spawns.induct) auto

lemma adds_spawns: "sum_list (map (\<lambda>w. sum_list (adds (wtrace w))) (spawns evs)) = 0"
  by (induction evs rule: spawns.induct) (auto simp: new_worker_def)

lemma exec_counter_sum:
  assumes "exec N a s = Ok s'" and "counter_sum s"
  shows "counter_sum s'"
  using assms(1)
proof (cases rule: exec_elim)
  case (coordinator ca evs l)
  then show ?thesis
    using assms(2) cstep_adds[OF coordinator(2)]
    by (simp add: counter_sum_def errLooped_effects workers_effects adds_spawns list_all_spawns)
next
  case (worker i wa evs w)
  note tr = wstep_trace[OF worker(3)]
  have inv: "counter_inv w"
    using wstep_counter_inv[OF worker(3)] assms(2) worker(2)
    by (simp add: counter_sum_def list_all_length)
  show ?thesis
    using worker(2,4) assms(2) tr inv
    by (simp add: counter_sum_def errLooped_effects workers_effects sum_list_map_update
          adds_append list_all_update wstep_spawns[OF worker(3)])
next
  case (closer cl e r n)
  then show ?thesis using assms(2) by (simp add: counter_sum_def)
qed

lemma counter_inv_adds: "counter_inv w \<Longrightarrow> 0 \<le> sum_list (adds (wtrace w))"
  by (simp add: counter_inv_def)

lemma counter_sum_nonneg: "counter_sum s \<Longrightarrow> 0 \<le> errLooped s"
proof -
  assume a: "counter_sum s"
  have "\<And>x. x \<in> set (map (\<lambda>w. sum_list (adds (wtrace w))) (workers s)) \<Longrightarrow> 0 \<le> x"
    using a by (auto simp: counter_sum_def list_all_iff counter_inv_adds)
  then have "0 \<le> sum_list (map (\<lambda>w. sum_list (adds (wtrace w))) (workers s))"
    by (rule sum_list_nonneg)
  then show ?thesis using a by (simp add: counter_sum_def)
qed

lemma init_counter_sum: "counter_sum (init r)"
  by (simp add: counter_sum_def init_def)

lemma run_counter_sum: "run N as (init r) = Ok s \<Longrightarrow> counter_sum s"
  by (erule run_invariant[where P = counter_sum]) (auto intro: init_counter_sum exec_counter_sum)

text \<open>
  C4. In every state the output reaches, \<open>errLooped\<close> is the sum of what the workers
  have added to it and is not negative. A worker that has handled no failure response
  has not touched the counter. A worker that has handled one began its trace, on the
  first of them, with the increment, and has added exactly \<open>[1]\<close> until the decrement
  of its deferred function and exactly \<open>[1, -1]\<close> from then on, in particular once it
  has returned, whichever way it left its loop.
\<close>

theorem errLooped_once_per_transaction:
  "run N as (init r) = Ok s \<Longrightarrow>
     0 \<le> errLooped s
     \<and> errLooped s = sum_list (map (\<lambda>w. sum_list (adds (wtrace w))) (workers s))
     \<and> (\<forall>w \<in> set (workers s).
          (log_error \<notin> set (wtrace w) \<longrightarrow> adds (wtrace w) = [])
          \<and> (log_error \<in> set (wtrace w) \<longrightarrow>
               (\<exists>rest. wtrace w
                  = errLooped_add 1 # metric ''retry.send.error'' 1 # log_error # rest)
               \<and> adds (wtrace w) = (if decremented (wloc w) then [1, - 1] else [1]))
          \<and> (wloc w = w_returned \<longrightarrow>
               adds (wtrace w) = (if log_error \<in> set (wtrace w) then [1, - 1] else [])))"
proof -
  assume "run N as (init r) = Ok s"
  then have cs: "counter_sum s" by (rule run_counter_sum)
  have a: "0 \<le> errLooped s" using cs by (rule counter_sum_nonneg)
  have b: "errLooped s = sum_list (map (\<lambda>w. sum_list (adds (wtrace w))) (workers s))"
    using cs by (simp add: counter_sum_def)
  have c: "(log_error \<notin> set (wtrace w) \<longrightarrow> adds (wtrace w) = [])
          \<and> (log_error \<in> set (wtrace w) \<longrightarrow>
               (\<exists>rest. wtrace w
                  = errLooped_add 1 # metric ''retry.send.error'' 1 # log_error # rest)
               \<and> adds (wtrace w) = (if decremented (wloc w) then [1, - 1] else [1]))
          \<and> (wloc w = w_returned \<longrightarrow>
               adds (wtrace w) = (if log_error \<in> set (wtrace w) then [1, - 1] else []))"
    if "w \<in> set (workers s)" for w
  proof -
    have "counter_inv w" using cs that by (simp add: counter_sum_def list_all_iff)
    then show ?thesis unfolding counter_inv_def by auto
  qed
  from a b c show ?thesis by blast
qed

lemma run_sched_exhausted:
  "observe (\<lambda>s. (errLooped s, map wloc (workers s), map wtrace (workers s), running (retry s)))
     (run (example_NextBackOff 2) sched_exhausted (init example_Retry))
   = Some (0, [w_returned],
       [[errLooped_add 1, metric ''retry.send.error'' 1, log_error, delivered [''m''],
         metric ''retry.send.error'' 1, log_error, delivered [''m''],
         metric ''retry.send.error'' 1, log_error, metric ''retry.end_of_retries'' 1,
         responded (Some NewNoack), wg_Done, errLooped_add (- 1)]], 1)"
  by (simp add: observe_def sched_exhausted_def sched_accept_def sched_fail_def sched_retry_def
        init_def example_Retry_def example_NextBackOff_def cstep_def wstep_def wcore_def
        handle_response_def new_worker_def Stop_def)

lemma observe_Some: "observe f out = Some v \<Longrightarrow> \<exists>s. out = Ok s \<and> f s = v"
  by (cases out) (auto simp: observe_def)

theorem errLooped_once_per_transaction_witness:
  "\<exists>s. run (example_NextBackOff 2) sched_exhausted (init example_Retry) = Ok s
       \<and> 0 \<le> errLooped s
       \<and> map wloc (workers s) = [w_returned]
       \<and> map (\<lambda>w. adds (wtrace w)) (workers s) = [[1, - 1]]"
proof -
  from observe_Some[OF run_sched_exhausted]
  obtain s where r: "run (example_NextBackOff 2) sched_exhausted (init example_Retry) = Ok s"
    and l: "map wloc (workers s) = [w_returned]"
    and t: "map wtrace (workers s) =
       [[errLooped_add 1, metric ''retry.send.error'' 1, log_error, delivered [''m''],
         metric ''retry.send.error'' 1, log_error, delivered [''m''],
         metric ''retry.send.error'' 1, log_error, metric ''retry.end_of_retries'' 1,
         responded (Some NewNoack), wg_Done, errLooped_add (- 1)]]"
    by auto
  obtain w where ws: "workers s = [w]" using l by auto
  have "adds (wtrace w) = [1, - 1]" using t ws by simp
  then show ?thesis
    using r l ws errLooped_once_per_transaction[OF r] by auto
qed

subsection \<open>Responses\<close>

lemma responses_append: "responses (xs @ ys) = responses xs @ responses ys"
  by (induction xs rule: responses.induct) auto

lemma wstep_response_inv:
  "wstep N r g a w = Ok (evs, w') \<Longrightarrow> response_inv w \<Longrightarrow> response_inv w'"
  by (erule wstep_elim) (auto simp: response_inv_def responses_append cancellable_iff)

lemma wstep_answered:
  "wstep N r g a w = Ok (evs, w') \<Longrightarrow> running r = 1 \<Longrightarrow> closeChan r \<noteq> Closed \<Longrightarrow>
     response_inv w \<Longrightarrow> answered w \<Longrightarrow> answered w'"
  by (erule wstep_elim) (auto simp: answered_def response_inv_def responses_append)

lemma lifecycle_inv_fields:
  "running r' = running r \<Longrightarrow> closeChan r' = closeChan r \<Longrightarrow>
     lifecycle_inv (r', n) = lifecycle_inv (r, n)"
  by (simp add: lifecycle_inv_def)

lemma lifecycle_inv_running:
  "lifecycle_inv (r, n) \<Longrightarrow> running r = 1 \<Longrightarrow> closeChan r \<noteq> Closed"
  by (auto simp: lifecycle_inv_def)

lemma CloseAsync_step_running:
  "CloseAsync_step a (r, n) = Ok (e, r', n') \<Longrightarrow> running r' = 1 \<Longrightarrow> running r = 1"
  by (cases a; cases n) (auto simp: CompareAndSwapInt32_def split: if_splits sum.splits)

lemma new_worker_response [simp]: "response_inv (new_worker p)" "answered (new_worker p)"
  by (simp_all add: response_inv_def answered_def new_worker_def)

lemma exec_response_sys:
  fixes s :: "('w, 'b) system"
  assumes "exec N a s = Ok s'" and "response_sys s"
  shows "response_sys s'"
  using assms(1)
proof (cases rule: exec_elim)
  case (coordinator ca evs l)
  have run: "running (retry s') = running (retry s)"
    and cc: "closeChan (retry s') = closeChan (retry s)"
    and cl: "closing s' = closing s"
    and ws: "workers s' = workers s @ spawns evs"
    using coordinator(3) by (simp_all add: closing_effects retry_effects workers_effects)
  have new: "list_all response_inv (spawns evs :: 'b worker list)"
    "list_all answered (spawns evs :: 'b worker list)"
    by (simp_all add: list_all_spawns)
  show ?thesis
    unfolding response_sys_def
    using assms(2)[unfolded response_sys_def] lifecycle_inv_fields[OF run cc, of "closing s"]
      new
    by (simp add: run cl ws)
next
  case (worker i wa evs w)
  have run: "running (retry s') = running (retry s)"
    and cc: "closeChan (retry s') = closeChan (retry s)"
    and cl: "closing s' = closing s"
    using worker(4) by (simp_all add: closing_effects retry_effects)
  have ws: "workers s' = (workers s)[i := w]"
    using worker(4) by (simp add: workers_effects wstep_spawns[OF worker(3)])
  have old: "response_inv (workers s ! i)"
    using assms(2) worker(2) by (simp add: response_sys_def list_all_length)
  have inv: "response_inv w"
    using wstep_response_inv[OF worker(3) old] .
  have ans: "answered w" if "running (retry s) = 1"
  proof -
    have "closeChan (retry s) \<noteq> Closed"
      using assms(2) that lifecycle_inv_running by (auto simp: response_sys_def)
    moreover have "answered (workers s ! i)"
      using assms(2) that worker(2) by (simp add: response_sys_def list_all_length)
    ultimately show ?thesis
      using wstep_answered[OF worker(3) that] old by blast
  qed
  show ?thesis
    unfolding response_sys_def
    using assms(2)[unfolded response_sys_def] lifecycle_inv_fields[OF run cc, of "closing s"]
      inv ans
    by (simp add: run cl ws list_all_update)
next
  case (closer cl e r n)
  have st: "retry s' = r" "closing s' = n" "workers s' = workers s"
    using closer(3) by simp_all
  have "lifecycle_inv (r, n)"
    using CloseAsync_step_inv(2)[OF _ closer(2)] assms(2) by (simp add: response_sys_def)
  moreover have "running r = 1 \<Longrightarrow> running (retry s) = 1"
    using CloseAsync_step_running[OF closer(2)] .
  ultimately show ?thesis
    unfolding response_sys_def st
    using assms(2)[unfolded response_sys_def] by blast
qed

lemma init_response_sys:
  "running r = 1 \<Longrightarrow> closeChan r = Open \<Longrightarrow> response_sys (init r)"
  by (simp add: response_sys_def init_def lifecycle_inv_def)

lemma run_response_sys:
  "run N as (init r) = Ok s \<Longrightarrow> running r = 1 \<Longrightarrow> closeChan r = Open \<Longrightarrow> response_sys s"
  by (erule run_invariant[where P = response_sys])
     (auto intro: init_response_sys exec_response_sys)

text \<open>
  Two runs of steps that the theorems on responses and on the retry budget leave aside.
  A worker that finds
  \<open>running\<close> at 0 when it tests its loop condition leaves the loop with \<open>resOut\<close>
  still nil, and its final select can send that nil value to the source. A worker that
  resubmits after the coordinator has closed \<open>transactionsOut\<close>, while \<open>closeChan\<close>
  is open, panics.
\<close>

lemma nil_response_when_stopping:
  "observe (\<lambda>s. (running (retry s), closeChan (retry s), map wtrace (workers s)))
     (run (example_NextBackOff 2) sched_stopping (init example_Retry))
   = Some (0, Open, [[responded None]])"
  by (simp add: observe_def sched_stopping_def sched_accept_def
        init_def example_Retry_def cstep_def wstep_def wcore_def new_worker_def
        CompareAndSwapInt32_def)

lemma resubmit_after_close_panics:
  "run (example_NextBackOff 2) sched_closed_resubmit (init example_Retry)
   = Panicked send_on_closed_channel"
  by (simp add: sched_closed_resubmit_def sched_before_pull_def sched_accept_def
        sched_fail_def init_def example_Retry_def example_NextBackOff_def cstep_def wstep_def
        wcore_def handle_response_def new_worker_def Stop_def)

subsection \<open>The retry budget\<close>

lemma resubmissions_append: "resubmissions (xs @ ys) = resubmissions xs + resubmissions ys"
  by (induction xs rule: resubmissions.induct) auto

lemma wstep_backoff_inv:
  assumes "wstep N r g a w = Ok (evs, w')" and "backoff_inv N (backoffCtor r) w"
  shows "backoff_inv N (backoffCtor r) w'"
  using assms
proof (cases rule: wstep_elim)
  case (stop err b')
  then show ?thesis
    using assms(2)
    by (auto simp: backoff_inv_def resubmissions_append current_def answer_def)
next
  case (continue err d b')
  then show ?thesis
    using assms(2)
    by (auto simp: backoff_inv_def resubmissions_append current_def answer_def)
next
  case send
  then show ?thesis
    using assms(2)
    by (auto simp: backoff_inv_def resubmissions_append current_def less_Suc_eq)
next
  case cancel
  then show ?thesis
    using assms(2)
    by (auto simp: backoff_inv_def current_def cancellable_iff)
qed (use assms(2) in \<open>auto simp: backoff_inv_def resubmissions_append current_def\<close>)

lemma new_worker_backoff [simp]: "backoff_inv N c (new_worker p)"
  by (simp add: backoff_inv_def new_worker_def current_def)

lemma CloseAsync_step_backoffCtor:
  "CloseAsync_step a (r, n) = Ok (e, r', n') \<Longrightarrow> backoffCtor r' = backoffCtor r"
  by (cases a; cases n) (auto simp: CompareAndSwapInt32_def split: if_splits sum.splits)

lemma exec_backoff_sys:
  fixes s :: "('w, 'b) system"
  assumes "exec N a s = Ok s'" and "backoff_sys N c s"
  shows "backoff_sys N c s'"
  using assms(1)
proof (cases rule: exec_elim)
  case (coordinator ca evs l)
  have new: "list_all (backoff_inv N c) (spawns evs :: 'b worker list)"
    by (simp add: list_all_spawns)
  show ?thesis
    unfolding backoff_sys_def
    using assms(2)[unfolded backoff_sys_def] coordinator(3) new
    by (simp add: retry_effects workers_effects)
next
  case (worker i wa evs w)
  have c: "backoffCtor (retry s) = c"
    using assms(2) by (simp add: backoff_sys_def)
  have ws: "workers s' = (workers s)[i := w]"
    using worker(4) by (simp add: workers_effects wstep_spawns[OF worker(3)])
  have old: "backoff_inv N (backoffCtor (retry s)) (workers s ! i)"
    using assms(2) worker(2) c by (simp add: backoff_sys_def list_all_length)
  have inv: "backoff_inv N c w"
    using wstep_backoff_inv[OF worker(3) old] c by simp
  have rt: "backoffCtor (retry s') = backoffCtor (retry s)"
    using worker(4) by (simp add: retry_effects)
  show ?thesis
    unfolding backoff_sys_def
    using assms(2)[unfolded backoff_sys_def] inv
    by (simp add: rt ws list_all_update)
next
  case (closer cl e r n)
  then show ?thesis
    using assms(2) CloseAsync_step_backoffCtor[OF closer(2)]
    by (simp add: backoff_sys_def)
qed

lemma run_backoff_sys:
  assumes "run N as (init r) = Ok s"
  shows "backoff_sys N (backoffCtor r) s"
proof -
  have i: "backoff_sys N (backoffCtor r) (init r)"
    by (simp add: backoff_sys_def init_def)
  show ?thesis
    by (rule run_invariant[where P = "backoff_sys N (backoffCtor r)", OF assms i])
       (erule exec_backoff_sys, assumption)
qed

lemma dispatched_append: "dispatched (xs @ ys) = dispatched xs @ dispatched ys"
  by (induction xs rule: dispatched.induct) auto

lemma wstep_payload: "wstep N r g a w = Ok (evs, w') \<Longrightarrow> ts_Payload w' = ts_Payload w"
  by (erule wstep_elim) auto

lemma wstep_noack_shape:
  assumes "wstep N r g a w = Ok (evs, w')" and "noack_shape w" and "response_inv w"
    and "backoff_inv N (backoffCtor r) w"
  shows "noack_shape w'"
  using assms(1)
  by (cases rule: wstep_elim)
     (use assms(2,3,4) in
      \<open>auto simp: noack_shape_def response_inv_def backoff_inv_def responses_append
         resubmissions_append before_stop_def after_stop_def takeWhile_append
         dropWhile_append cancellable_iff\<close>)

lemma new_worker_shape [simp]: "noack_shape (new_worker p)"
  by (simp add: noack_shape_def new_worker_def after_stop_def)

lemma wstep_interrupt_gate:
  "wstep N r g a w = Ok (evs, w') \<Longrightarrow> interrupt_sent \<in> set evs \<Longrightarrow> g"
  by (erule wstep_elim) (auto split: if_splits)

lemma exec_dispatch_inv:
  fixes s :: "('w, 'b) system"
  assumes "exec N a s = Ok s'" and "dispatch_inv s"
  shows "dispatch_inv s'"
  using assms(1)
proof (cases rule: exec_elim)
  case (coordinator ca evs l)
  have tr: "ctrace s' = ctrace s @ evs"
    and ws: "workers s' = workers s @ spawns evs"
    and lo: "cloc s' = (if interrupt_sent \<in> set evs then c223_for else l)"
    using coordinator(3) by (simp_all add: ctrace_effects workers_effects cloc_effects)
  from coordinator(2) show ?thesis
    unfolding dispatch_inv_def tr ws lo
    using assms(2)[unfolded dispatch_inv_def]
    by (cases rule: cstep_elim)
       (auto simp: dispatched_append new_worker_def ccancellable_iff)
next
  case (worker i wa evs w)
  have tr: "ctrace s' = ctrace s"
    and lo: "cloc s' = (if interrupt_sent \<in> set evs then c223_for else cloc s)"
    using worker(4) by (simp_all add: ctrace_effects cloc_effects)
  have ws: "workers s' = (workers s)[i := w]"
    using worker(4) by (simp add: workers_effects wstep_spawns[OF worker(3)])
  have pl: "map ts_Payload ((workers s)[i := w]) = map ts_Payload (workers s)"
    using wstep_payload[OF worker(3)] worker(2)
    by (simp add: map_update list_update_same_conv)
  have pe: "pending (cloc s') = pending (cloc s)"
    using lo wstep_interrupt_gate[OF worker(3)] by auto
  show ?thesis
    unfolding dispatch_inv_def tr ws pl pe
    using assms(2)[unfolded dispatch_inv_def] .
next
  case (closer cl e r n)
  then show ?thesis using assms(2) by (simp add: dispatch_inv_def)
qed

lemma exec_shape_sys:
  fixes s :: "('w, 'b) system"
  assumes "exec N a s = Ok s'" and "shape_sys s" and "response_sys s" and "backoff_sys N c s"
  shows "shape_sys s'"
proof -
  have d: "dispatch_inv s'"
    using exec_dispatch_inv[OF assms(1)] assms(2) by (simp add: shape_sys_def)
  have l: "list_all noack_shape (workers s')"
    using assms(1)
  proof (cases rule: exec_elim)
    case (coordinator ca evs l)
    have new: "list_all noack_shape (spawns evs :: 'b worker list)"
      by (simp add: list_all_spawns)
    show ?thesis
      using assms(2) coordinator(3) new by (simp add: shape_sys_def workers_effects)
  next
    case (worker i wa evs w)
    have ws: "workers s' = (workers s)[i := w]"
      using worker(4) by (simp add: workers_effects wstep_spawns[OF worker(3)])
    have "noack_shape (workers s ! i)" "response_inv (workers s ! i)"
      "backoff_inv N (backoffCtor (retry s)) (workers s ! i)"
      using assms(2,3,4) worker(2)
      by (simp_all add: shape_sys_def response_sys_def backoff_sys_def list_all_length)
    then have "noack_shape w"
      using wstep_noack_shape[OF worker(3)] by blast
    then show ?thesis
      using assms(2) by (simp add: ws shape_sys_def list_all_update)
  next
    case (closer cl e r n)
    then show ?thesis using assms(2) by (simp add: shape_sys_def)
  qed
  from d l show ?thesis by (simp add: shape_sys_def)
qed

lemma run_all_inv:
  assumes "run N as (init r) = Ok s" and "running r = 1" and "closeChan r = Open"
  shows "response_sys s \<and> backoff_sys N (backoffCtor r) s \<and> shape_sys s"
proof -
  let ?P = "\<lambda>s. response_sys s \<and> backoff_sys N (backoffCtor r) s \<and> shape_sys s"
  have i: "?P (init r)"
    using init_response_sys[OF assms(2,3)]
    by (simp add: backoff_sys_def shape_sys_def dispatch_inv_def init_def)
  have st: "?P t'" if "?P t" "exec N a t = Ok t'" for a t t'
    using that exec_response_sys[OF that(2)] exec_backoff_sys[OF that(2)]
      exec_shape_sys[OF that(2)]
    by blast
  show ?thesis
    by (rule run_invariant[where P = ?P, OF assms(1) i]) (rule st)
qed

lemma retry_budget_counts:
  assumes "run N as (init r) = Ok s" and "running r = 1" and "closeChan r = Open"
    and "\<forall>i<n. answer N (backoffCtor r) i \<noteq> Stop" and "answer N (backoffCtor r) n = Stop"
    and "running (retry s) = 1" and "w \<in> set (workers s)" and "past_select (wloc w)"
    and "metric ''retry.send.success'' 1 \<notin> set (wtrace w)"
  shows "dispatched (ctrace s) = map ts_Payload (workers s) @ pending (cloc s)
     \<and> resubmissions (wtrace w) = n
     \<and> count_list (wtrace w) log_error = Suc n
     \<and> count_list (wtrace w) (metric ''retry.end_of_retries'' 1) = 1
     \<and> responses (wtrace w) = [Some NewNoack]
     \<and> wtrace w = before_stop (wtrace w) @ after_stop (wtrace w)
     \<and> resubmissions (before_stop (wtrace w)) = n
     \<and> responses (before_stop (wtrace w)) = []
     \<and> hd (after_stop (wtrace w)) = metric ''retry.end_of_retries'' 1
     \<and> resubmissions (after_stop (wtrace w)) = 0
     \<and> responses (after_stop (wtrace w)) = [Some NewNoack]"
proof -
  note all = run_all_inv[OF assms(1,2,3)]
  have ri: "response_inv w" and an: "answered w"
    and bi: "backoff_inv N (backoffCtor r) w" and sh: "noack_shape w"
    and di: "dispatch_inv s"
    using all assms(6,7)
    by (simp_all add: response_sys_def backoff_sys_def shape_sys_def list_all_iff)
  have res: "responses (wtrace w) = [resOut w]" and some: "resOut w \<noteq> None"
    using an assms(8) by (simp_all add: answered_def)
  have noack: "resOut w = Some NewNoack"
  proof -
    obtain ro where ro: "resOut w = Some ro" using some by auto
    show ?thesis using ri ro assms(9) by (cases ro) (simp_all add: response_inv_def)
  qed
  let ?d = "resubmissions (wtrace w)"
  have k: "count_list (wtrace w) log_error = Suc ?d"
    and stop: "answer N (backoffCtor r) ?d = Stop"
    and cont: "\<forall>i < ?d. answer N (backoffCtor r) i \<noteq> Stop"
    and once: "count_list (wtrace w) (metric ''retry.end_of_retries'' 1) = 1"
    using bi noack by (simp_all add: backoff_inv_def)
  have d: "?d = n"
  proof (rule ccontr)
    assume "?d \<noteq> n"
    then consider "?d < n" | "n < ?d" by linarith
    then show False
    proof cases
      case 1
      then show False using assms(4) stop by blast
    next
      case 2
      then show False using cont assms(5) by blast
    qed
  qed
  have mem: "metric ''retry.end_of_retries'' 1 \<in> set (wtrace w)"
    using once count_list_0_iff[of "wtrace w" "metric ''retry.end_of_retries'' 1"] by auto
  have split: "wtrace w = before_stop (wtrace w) @ after_stop (wtrace w)"
    by (simp add: before_stop_def after_stop_def)
  have after0: "resubmissions (after_stop (wtrace w)) = 0"
    and before_res: "responses (before_stop (wtrace w)) = []"
    using sh mem by (simp_all add: noack_shape_def)
  have before_d: "resubmissions (before_stop (wtrace w)) = n"
    using d after0 split resubmissions_append[of "before_stop (wtrace w)" "after_stop (wtrace w)"]
    by simp
  have after_res: "responses (after_stop (wtrace w)) = [Some NewNoack]"
    using res noack before_res split
      responses_append[of "before_stop (wtrace w)" "after_stop (wtrace w)"]
    by simp
  have hd: "hd (after_stop (wtrace w)) = metric ''retry.end_of_retries'' 1"
  proof -
    have "dropWhile (\<lambda>e. e \<noteq> metric ''retry.end_of_retries'' 1) (wtrace w) \<noteq> []"
      using mem by (auto simp: dropWhile_eq_Nil_conv)
    from hd_dropWhile[OF this] show ?thesis by (simp add: after_stop_def)
  qed
  show ?thesis
    using di d k once res noack split before_d before_res hd after0 after_res
    unfolding dispatch_inv_def by simp
qed

lemma run_append:
  "run N (as @ bs) s =
     (case run N as s of Ok s' \<Rightarrow> run N bs s' | Panicked p \<Rightarrow> Panicked p | Disabled \<Rightarrow> Disabled)"
  by (induction as arbitrary: s) (auto split: outcome.splits)

lemma retry_round_ready:
  assumes "ready N i k s" and "answer N (backoffCtor (retry s)) k \<noteq> Stop"
  shows "\<exists>s'. run N (retry_round i err) s = Ok s' \<and> ready N i (Suc k) s'
            \<and> backoffCtor (retry s') = backoffCtor (retry s)"
proof -
  obtain d b' where nb: "N (bstate N (backoffCtor (retry s)) k) = (d, b')"
    by (cases "N (bstate N (backoffCtor (retry s)) k)")
  have d: "d \<noteq> Stop" using assms(2) nb by (simp add: answer_def)
  show ?thesis
    using assms(1) nb d
    by (simp add: ready_def retry_round_def fail_round_def wstep_def wcore_def
          handle_response_def current_def Let_def retry_effects workers_effects
          split: option.splits)
qed

lemma last_round_returns:
  assumes "ready N i k s" and "answer N (backoffCtor (retry s)) k = Stop"
  shows "\<exists>s'. run N (last_round i err) s = Ok s' \<and> i < length (workers s')
            \<and> wloc (workers s' ! i) = w_returned \<and> running (retry s') = 1
            \<and> metric ''retry.send.success'' 1 \<notin> set (wtrace (workers s' ! i))"
proof -
  obtain d b' where nb: "N (bstate N (backoffCtor (retry s)) k) = (d, b')"
    by (cases "N (bstate N (backoffCtor (retry s)) k)")
  have d: "d = Stop" using assms(2) nb by (simp add: answer_def)
  show ?thesis
    using assms(1) nb d
    by (simp add: ready_def last_round_def fail_round_def wstep_def wcore_def
          handle_response_def current_def Let_def retry_effects workers_effects
          split: option.splits)
qed

lemma always_failing_returns:
  assumes "ready N i k s"
    and "\<forall>j<n. answer N (backoffCtor (retry s)) (k + j) \<noteq> Stop"
    and "answer N (backoffCtor (retry s)) (k + n) = Stop"
  shows "\<exists>s'. run N (always_failing i n err) s = Ok s' \<and> i < length (workers s')
            \<and> wloc (workers s' ! i) = w_returned \<and> running (retry s') = 1
            \<and> metric ''retry.send.success'' 1 \<notin> set (wtrace (workers s' ! i))"
  using assms
proof (induction n arbitrary: k s)
  case 0
  then show ?case
    using last_round_returns[of N i k s err] by (simp add: always_failing_def)
next
  case (Suc n)
  have "answer N (backoffCtor (retry s)) k \<noteq> Stop"
    using Suc.prems(2) by (metis add.right_neutral zero_less_Suc)
  from retry_round_ready[OF Suc.prems(1) this, of err]
  obtain t where t: "run N (retry_round i err) s = Ok t" "ready N i (Suc k) t"
    "backoffCtor (retry t) = backoffCtor (retry s)"
    by blast
  have a: "\<forall>j<n. answer N (backoffCtor (retry t)) (Suc k + j) \<noteq> Stop"
    using Suc.prems(2) t(3) by (metis Suc_less_eq add_Suc_shift)
  have b: "answer N (backoffCtor (retry t)) (Suc k + n) = Stop"
    using Suc.prems(3) t(3) by simp
  from Suc.IH[OF t(2) a b]
  obtain s' where s': "run N (always_failing i n err) t = Ok s'" "i < length (workers s')"
    "wloc (workers s' ! i) = w_returned" "running (retry s') = 1"
    "metric ''retry.send.success'' 1 \<notin> set (wtrace (workers s' ! i))"
    by blast
  have "run N (always_failing i (Suc n) err) s = Ok s'"
    using t(1) s'(1) by (simp add: always_failing_def run_append)
  then show ?case using s' by blast
qed

text \<open>
  C2, as amended. Let the backoff instance answer the first \<open>n\<close> calls of
  \<open>NextBackOff\<close> with an interval and the next call with \<open>Stop\<close>. In every run, as
  long as no shutdown has been requested (\<open>running\<close> is 1), a worker that has left the
  select of line 318 without ever recording a success has been resubmitted exactly \<open>n\<close>
  times, after the one dispatch by the coordinator (which dispatches exactly once per
  worker); it handled \<open>n + 1\<close> failures, incremented the end-of-retries metric exactly
  once and wrote exactly one response, the noack; no resubmission follows the metric and
  the response is written after it. And a worker does get there: from any state reached
  with the output running and \<open>transactionsOut\<close> open, a freshly started worker whose
  every delivery is answered with an error, and whose steps nothing interrupts, runs
  through its \<open>n\<close> resubmissions and returns with these counts. In every run, also
  under shutdown, no worker is resubmitted more than \<open>n\<close> times or increments the
  metric more than once.
\<close>

theorem retry_budget:
  assumes "running r = 1" and "closeChan r = Open"
    and "\<forall>i<n. answer N (backoffCtor r) i \<noteq> Stop" and "answer N (backoffCtor r) n = Stop"
  shows
    "(\<forall>as s w. run N as (init r) = Ok s \<and> running (retry s) = 1 \<and> w \<in> set (workers s)
         \<and> past_select (wloc w) \<and> metric ''retry.send.success'' 1 \<notin> set (wtrace w) \<longrightarrow>
         dispatched (ctrace s) = map ts_Payload (workers s) @ pending (cloc s)
         \<and> resubmissions (wtrace w) = n
         \<and> count_list (wtrace w) log_error = Suc n
         \<and> count_list (wtrace w) (metric ''retry.end_of_retries'' 1) = 1
         \<and> responses (wtrace w) = [Some NewNoack]
         \<and> wtrace w = before_stop (wtrace w) @ after_stop (wtrace w)
         \<and> resubmissions (before_stop (wtrace w)) = n
         \<and> responses (before_stop (wtrace w)) = []
         \<and> hd (after_stop (wtrace w)) = metric ''retry.end_of_retries'' 1
         \<and> resubmissions (after_stop (wtrace w)) = 0
         \<and> responses (after_stop (wtrace w)) = [Some NewNoack])
     \<and> (\<forall>pre s i p err. run N pre (init r) = Ok s \<and> running (retry s) = 1
         \<and> transactionsOut (retry s) = Open \<and> i < length (workers s)
         \<and> workers s ! i = new_worker p \<longrightarrow>
         (\<exists>s'. run N (pre @ always_failing i n err) (init r) = Ok s'
             \<and> running (retry s') = 1 \<and> i < length (workers s')
             \<and> wloc (workers s' ! i) = w_returned
             \<and> resubmissions (wtrace (workers s' ! i)) = n
             \<and> count_list (wtrace (workers s' ! i)) (metric ''retry.end_of_retries'' 1) = 1
             \<and> responses (wtrace (workers s' ! i)) = [Some NewNoack]))
     \<and> (\<forall>as s w. run N as (init r) = Ok s \<and> w \<in> set (workers s) \<longrightarrow>
         resubmissions (wtrace w) \<le> n
         \<and> count_list (wtrace w) (metric ''retry.end_of_retries'' 1) \<le> 1)"
proof -
  have A: "dispatched (ctrace s) = map ts_Payload (workers s) @ pending (cloc s)
         \<and> resubmissions (wtrace w) = n
         \<and> count_list (wtrace w) log_error = Suc n
         \<and> count_list (wtrace w) (metric ''retry.end_of_retries'' 1) = 1
         \<and> responses (wtrace w) = [Some NewNoack]
         \<and> wtrace w = before_stop (wtrace w) @ after_stop (wtrace w)
         \<and> resubmissions (before_stop (wtrace w)) = n
         \<and> responses (before_stop (wtrace w)) = []
         \<and> hd (after_stop (wtrace w)) = metric ''retry.end_of_retries'' 1
         \<and> resubmissions (after_stop (wtrace w)) = 0
         \<and> responses (after_stop (wtrace w)) = [Some NewNoack]"
    if "run N as (init r) = Ok s" "running (retry s) = 1" "w \<in> set (workers s)"
      "past_select (wloc w)" "metric ''retry.send.success'' 1 \<notin> set (wtrace w)"
    for as s w
    using retry_budget_counts[OF that(1) assms that(2-5)] .
  have B: "\<exists>s'. run N (pre @ always_failing i n err) (init r) = Ok s'
             \<and> running (retry s') = 1 \<and> i < length (workers s')
             \<and> wloc (workers s' ! i) = w_returned
             \<and> resubmissions (wtrace (workers s' ! i)) = n
             \<and> count_list (wtrace (workers s' ! i)) (metric ''retry.end_of_retries'' 1) = 1
             \<and> responses (wtrace (workers s' ! i)) = [Some NewNoack]"
    if pre: "run N pre (init r) = Ok s" and run: "running (retry s) = 1"
      and out: "transactionsOut (retry s) = Open" and i: "i < length (workers s)"
      and new: "workers s ! i = new_worker p"
    for pre s i p err
  proof -
    have c: "backoffCtor (retry s) = backoffCtor r"
      using run_backoff_sys[OF pre] by (simp add: backoff_sys_def)
    have rd: "ready N i 0 s"
      using run out i new by (simp add: ready_def new_worker_def current_def)
    have a1: "\<forall>j<n. answer N (backoffCtor (retry s)) (0 + j) \<noteq> Stop"
      and a2: "answer N (backoffCtor (retry s)) (0 + n) = Stop"
      using assms(3,4) c by simp_all
    from always_failing_returns[OF rd a1 a2, of err]
    obtain s' where s': "run N (always_failing i n err) s = Ok s'" "i < length (workers s')"
      "wloc (workers s' ! i) = w_returned" "running (retry s') = 1"
      "metric ''retry.send.success'' 1 \<notin> set (wtrace (workers s' ! i))"
      by blast
    have whole: "run N (pre @ always_failing i n err) (init r) = Ok s'"
      using pre s'(1) by (simp add: run_append)
    have mem: "workers s' ! i \<in> set (workers s')" using s'(2) by simp
    have ps: "past_select (wloc (workers s' ! i))" using s'(3) by simp
    from A[OF whole s'(4) mem ps s'(5)] whole s' show ?thesis by blast
  qed
  have C: "resubmissions (wtrace w) \<le> n
         \<and> count_list (wtrace w) (metric ''retry.end_of_retries'' 1) \<le> 1"
    if "run N as (init r) = Ok s" "w \<in> set (workers s)" for as s w
  proof -
    have bi: "backoff_inv N (backoffCtor r) w"
      using run_backoff_sys[OF that(1)] that(2) by (simp add: backoff_sys_def list_all_iff)
    then have cont: "\<forall>i < resubmissions (wtrace w). answer N (backoffCtor r) i \<noteq> Stop"
      and cnt: "count_list (wtrace w) (metric ''retry.end_of_retries'' 1)
          = (if resOut w = Some NewNoack then 1 else 0)"
      by (simp_all add: backoff_inv_def)
    have "\<not> n < resubmissions (wtrace w)" using cont assms(4) by blast
    then show ?thesis using cnt by simp
  qed
  from A B C show ?thesis by blast
qed

lemma bstate_example: "i \<le> n \<Longrightarrow> bstate (example_NextBackOff n) 0 i = i"
  by (induction i) (auto simp: example_NextBackOff_def)

lemma answer_example:
  "i \<le> n \<Longrightarrow> answer (example_NextBackOff n) 0 i = (if i < n then 100000000 else Stop)"
  by (simp add: answer_def bstate_example example_NextBackOff_def)

lemma run_sched_accept:
  "observe (\<lambda>s. (running (retry s), transactionsOut (retry s), workers s))
     (run (example_NextBackOff 2) sched_accept (init example_Retry))
   = Some (1, Open, [new_worker [''m'']])"
  by (simp add: observe_def sched_accept_def init_def example_Retry_def cstep_def)

theorem retry_budget_witness:
  "\<exists>s'. run (example_NextBackOff 2)
          (sched_accept @ always_failing 0 2 (ErrorString ''refused'')) (init example_Retry)
        = Ok s'
       \<and> running example_Retry = 1 \<and> closeChan example_Retry = Open
       \<and> answer (example_NextBackOff 2) (backoffCtor example_Retry) 2 = Stop
       \<and> running (retry s') = 1
       \<and> wloc (workers s' ! 0) = w_returned
       \<and> resubmissions (wtrace (workers s' ! 0)) = 2
       \<and> count_list (wtrace (workers s' ! 0)) (metric ''retry.end_of_retries'' 1) = 1
       \<and> responses (wtrace (workers s' ! 0)) = [Some NewNoack]"
proof -
  have h: "running example_Retry = 1" "closeChan example_Retry = Open"
    and c: "backoffCtor example_Retry = 0"
    by (simp_all add: example_Retry_def)
  have a1: "\<forall>i<2. answer (example_NextBackOff 2) (backoffCtor example_Retry) i \<noteq> Stop"
    unfolding c by (simp add: answer_example Stop_def)
  have a2: "answer (example_NextBackOff 2) (backoffCtor example_Retry) 2 = Stop"
    unfolding c by (simp add: answer_example)
  from observe_Some[OF run_sched_accept]
  obtain s where s: "run (example_NextBackOff 2) sched_accept (init example_Retry) = Ok s"
    "running (retry s) = 1" "transactionsOut (retry s) = Open"
    "workers s = [new_worker [''m'']]"
    by auto
  have i: "0 < length (workers s)" "workers s ! 0 = new_worker [''m'']"
    using s(4) by simp_all
  from retry_budget[OF h a1 a2] s(1,2,3) i
  have "\<exists>s'. run (example_NextBackOff 2)
          (sched_accept @ always_failing 0 2 (ErrorString ''refused'')) (init example_Retry)
        = Ok s'
       \<and> running (retry s') = 1 \<and> 0 < length (workers s')
       \<and> wloc (workers s' ! 0) = w_returned
       \<and> resubmissions (wtrace (workers s' ! 0)) = 2
       \<and> count_list (wtrace (workers s' ! 0)) (metric ''retry.end_of_retries'' 1) = 1
       \<and> responses (wtrace (workers s' ! 0)) = [Some NewNoack]"
    by blast
  then show ?thesis using h a2 by blast
qed

text \<open>
  As stated the claim holds of every transaction whose delivery always fails. Here the
  backoff allows two retries and the first delivery fails; \<open>CloseAsync\<close> is then called
  while the worker waits out its first backoff interval, and the worker takes the closed
  \<open>closeChan\<close> (line 301) and returns. The transaction was delivered once, by the
  coordinator, and never resubmitted; the end-of-retries metric was not incremented and no
  outcome was written.
\<close>

theorem retry_budget_shutdown_counterexample:
  "answer (example_NextBackOff 2) (backoffCtor example_Retry) 2 = Stop
   \<and> observe (\<lambda>s. (dispatched (ctrace s), map wloc (workers s), map wtrace (workers s)))
       (run (example_NextBackOff 2) sched_abandoned (init example_Retry))
     = Some ([[''m'']], [w_returned],
             [[errLooped_add 1, metric ''retry.send.error'' 1, log_error, wg_Done,
               errLooped_add (- 1)]])"
  by (simp add: observe_def sched_abandoned_def sched_accept_def sched_fail_def
        init_def example_Retry_def example_NextBackOff_def cstep_def wstep_def
        wcore_def handle_response_def new_worker_def Stop_def CompareAndSwapInt32_def
        answer_example)

subsection \<open>The outcome of a transaction\<close>

lemma ack_round_responds:
  assumes "ready N i k s"
  shows "\<exists>s'. run N (ack_round i) s = Ok s' \<and> i < length (workers s')
            \<and> wloc (workers s' ! i) = w259_defer \<and> running (retry s') = 1
            \<and> resOut (workers s' ! i) = Some NewAck"
  using assms
  by (simp add: ready_def ack_round_def wstep_def wcore_def
        handle_response_def current_def Let_def retry_effects workers_effects
        split: option.splits)

lemma succeeding_responds:
  assumes "ready N i k s"
    and "\<forall>j<m. answer N (backoffCtor (retry s)) (k + j) \<noteq> Stop"
  shows "\<exists>s'. run N (succeeding i m err) s = Ok s' \<and> i < length (workers s')
            \<and> wloc (workers s' ! i) = w259_defer \<and> running (retry s') = 1
            \<and> resOut (workers s' ! i) = Some NewAck"
  using assms
proof (induction m arbitrary: k s)
  case 0
  then show ?case
    using ack_round_responds[of N i k s] by (simp add: succeeding_def)
next
  case (Suc m)
  have "answer N (backoffCtor (retry s)) k \<noteq> Stop"
    using Suc.prems(2) by (metis add.right_neutral zero_less_Suc)
  from retry_round_ready[OF Suc.prems(1) this, of err]
  obtain t where t: "run N (retry_round i err) s = Ok t" "ready N i (Suc k) t"
    "backoffCtor (retry t) = backoffCtor (retry s)"
    by blast
  have a: "\<forall>j<m. answer N (backoffCtor (retry t)) (Suc k + j) \<noteq> Stop"
    using Suc.prems(2) t(3) by (metis Suc_less_eq add_Suc_shift)
  from Suc.IH[OF t(2) a]
  obtain s' where s': "run N (succeeding i m err) t = Ok s'" "i < length (workers s')"
    "wloc (workers s' ! i) = w259_defer" "running (retry s') = 1"
    "resOut (workers s' ! i) = Some NewAck"
    by blast
  have "run N (succeeding i (Suc m) err) s = Ok s'"
    using t(1) s'(1) by (simp add: succeeding_def run_append)
  then show ?case using s' by blast
qed

text \<open>
  C1, as amended. In every run at most one value is written to a transaction's response
  channel, and as long as \<open>running\<close> is still 1 a worker that has left the select of
  line 318 has written exactly one outcome: an ack, after recording a success, or a noack,
  after recording the end of the retries. Without a shutdown the outcome does get
  written. From any state reached with the output running and \<open>transactionsOut\<close> open,
  a worker at its loop test whose next \<open>m\<close> deliveries are answered with an error the
  backoff lets it retry, and the one after with a success, writes the ack as soon as the
  source takes it; and a worker whose deliveries are answered with an error until the
  backoff answers \<open>Stop\<close> writes the noack.
\<close>

theorem one_response:
  assumes "running r = 1" and "closeChan r = Open"
  shows
    "(\<forall>as s. run N as (init r) = Ok s \<longrightarrow>
        (\<forall>w \<in> set (workers s). length (responses (wtrace w)) \<le> 1)
        \<and> (running (retry s) = 1 \<longrightarrow>
             (\<forall>w \<in> set (workers s). past_select (wloc w) \<longrightarrow>
                (responses (wtrace w) = [Some NewAck]
                   \<and> metric ''retry.send.success'' 1 \<in> set (wtrace w))
                \<or> (responses (wtrace w) = [Some NewNoack]
                   \<and> metric ''retry.end_of_retries'' 1 \<in> set (wtrace w)))))
     \<and> (\<forall>pre s i k m err. run N pre (init r) = Ok s \<and> ready N i k s
          \<and> (\<forall>j<m. answer N (backoffCtor r) (k + j) \<noteq> Stop) \<longrightarrow>
          (\<exists>s'. run N (pre @ succeeding i m err) (init r) = Ok s'
              \<and> running (retry s') = 1 \<and> i < length (workers s')
              \<and> past_select (wloc (workers s' ! i))
              \<and> responses (wtrace (workers s' ! i)) = [Some NewAck]))
     \<and> (\<forall>pre s i k n err. run N pre (init r) = Ok s \<and> ready N i k s
          \<and> (\<forall>j<n. answer N (backoffCtor r) (k + j) \<noteq> Stop)
          \<and> answer N (backoffCtor r) (k + n) = Stop \<longrightarrow>
          (\<exists>s'. run N (pre @ always_failing i n err) (init r) = Ok s'
              \<and> running (retry s') = 1 \<and> i < length (workers s')
              \<and> past_select (wloc (workers s' ! i))
              \<and> responses (wtrace (workers s' ! i)) = [Some NewNoack]))"
proof -
  have a: "length (responses (wtrace w)) \<le> 1"
    if "run N as (init r) = Ok s" "w \<in> set (workers s)" for as s w
    using run_response_sys[OF that(1) assms] that(2)
    by (simp add: response_sys_def list_all_iff response_inv_def)
  have res: "responses (wtrace w) = [resOut w] \<and> resOut w \<noteq> None \<and> response_inv w"
    if "run N as (init r) = Ok s" "running (retry s) = 1" "w \<in> set (workers s)"
      "past_select (wloc w)" for as s w
    using run_response_sys[OF that(1) assms] that(2,3,4)
    by (simp add: response_sys_def list_all_iff answered_def)
  have b: "(responses (wtrace w) = [Some NewAck]
                \<and> metric ''retry.send.success'' 1 \<in> set (wtrace w))
             \<or> (responses (wtrace w) = [Some NewNoack]
                \<and> metric ''retry.end_of_retries'' 1 \<in> set (wtrace w))"
    if "run N as (init r) = Ok s" "running (retry s) = 1" "w \<in> set (workers s)"
      "past_select (wloc w)" for as s w
  proof -
    from res[OF that] obtain ro where ro: "resOut w = Some ro"
      and r: "responses (wtrace w) = [resOut w]" and i: "response_inv w"
      by auto
    show ?thesis
      using i r ro by (cases ro) (simp_all add: response_inv_def)
  qed
  have c: "\<exists>s'. run N (pre @ succeeding i m err) (init r) = Ok s'
              \<and> running (retry s') = 1 \<and> i < length (workers s')
              \<and> past_select (wloc (workers s' ! i))
              \<and> responses (wtrace (workers s' ! i)) = [Some NewAck]"
    if pre: "run N pre (init r) = Ok s" and rd: "ready N i k s"
      and ans: "\<forall>j<m. answer N (backoffCtor r) (k + j) \<noteq> Stop"
    for pre s i k m err
  proof -
    have ctor: "backoffCtor (retry s) = backoffCtor r"
      using run_backoff_sys[OF pre] by (simp add: backoff_sys_def)
    from succeeding_responds[OF rd, of m err] ans ctor
    obtain s' where s': "run N (succeeding i m err) s = Ok s'" "i < length (workers s')"
      "wloc (workers s' ! i) = w259_defer" "running (retry s') = 1"
      "resOut (workers s' ! i) = Some NewAck"
      by auto
    have whole: "run N (pre @ succeeding i m err) (init r) = Ok s'"
      using pre s'(1) by (simp add: run_append)
    have mem: "workers s' ! i \<in> set (workers s')" using s'(2) by simp
    have ps: "past_select (wloc (workers s' ! i))" using s'(3) by simp
    from res[OF whole s'(4) mem ps] s'(5)
    have "responses (wtrace (workers s' ! i)) = [Some NewAck]" by simp
    with whole s' ps show ?thesis by blast
  qed
  have d: "\<exists>s'. run N (pre @ always_failing i n err) (init r) = Ok s'
              \<and> running (retry s') = 1 \<and> i < length (workers s')
              \<and> past_select (wloc (workers s' ! i))
              \<and> responses (wtrace (workers s' ! i)) = [Some NewNoack]"
    if pre: "run N pre (init r) = Ok s" and rd: "ready N i k s"
      and ans: "\<forall>j<n. answer N (backoffCtor r) (k + j) \<noteq> Stop"
      and stop: "answer N (backoffCtor r) (k + n) = Stop"
    for pre s i k n err
  proof -
    have ctor: "backoffCtor (retry s) = backoffCtor r"
      using run_backoff_sys[OF pre] by (simp add: backoff_sys_def)
    from always_failing_returns[OF rd, of n err] ans stop ctor
    obtain s' where s': "run N (always_failing i n err) s = Ok s'" "i < length (workers s')"
      "wloc (workers s' ! i) = w_returned" "running (retry s') = 1"
      "metric ''retry.send.success'' 1 \<notin> set (wtrace (workers s' ! i))"
      by auto
    have whole: "run N (pre @ always_failing i n err) (init r) = Ok s'"
      using pre s'(1) by (simp add: run_append)
    have mem: "workers s' ! i \<in> set (workers s')" using s'(2) by simp
    have ps: "past_select (wloc (workers s' ! i))" using s'(3) by simp
    from b[OF whole s'(4) mem ps] s'(5)
    have "responses (wtrace (workers s' ! i)) = [Some NewNoack]" by blast
    with whole s' ps show ?thesis by blast
  qed
  from a b c d show ?thesis by blast
qed

theorem one_response_witness:
  "running example_Retry = 1 \<and> closeChan example_Retry = Open
   \<and> (\<exists>s'. run (example_NextBackOff 2)
              (sched_accept @ succeeding 0 1 (ErrorString ''refused'')) (init example_Retry)
            = Ok s'
          \<and> running (retry s') = 1
          \<and> past_select (wloc (workers s' ! 0))
          \<and> responses (wtrace (workers s' ! 0)) = [Some NewAck])
   \<and> (\<exists>s'. run (example_NextBackOff 2)
              (sched_accept @ always_failing 0 2 (ErrorString ''refused'')) (init example_Retry)
            = Ok s'
          \<and> running (retry s') = 1
          \<and> past_select (wloc (workers s' ! 0))
          \<and> responses (wtrace (workers s' ! 0)) = [Some NewNoack])"
proof -
  have h: "running example_Retry = 1" "closeChan example_Retry = Open"
    and c: "backoffCtor example_Retry = 0"
    by (simp_all add: example_Retry_def)
  have a1: "\<forall>j<1. answer (example_NextBackOff 2) (backoffCtor example_Retry) (0 + j) \<noteq> Stop"
    unfolding c by (simp add: answer_example Stop_def)
  have a2: "\<forall>j<2. answer (example_NextBackOff 2) (backoffCtor example_Retry) (0 + j) \<noteq> Stop"
    unfolding c by (simp add: answer_example Stop_def)
  have a3: "answer (example_NextBackOff 2) (backoffCtor example_Retry) (0 + 2) = Stop"
    unfolding c by (simp add: answer_example)
  from observe_Some[OF run_sched_accept]
  obtain s where s: "run (example_NextBackOff 2) sched_accept (init example_Retry) = Ok s"
    "running (retry s) = 1" "transactionsOut (retry s) = Open"
    "workers s = [new_worker [''m'']]"
    by auto
  have rd: "ready (example_NextBackOff 2) 0 0 s"
    using s(2,3,4) by (simp add: ready_def new_worker_def current_def)
  note t = one_response[OF h, of "example_NextBackOff 2"]
  from t s(1) rd a1
  have ack: "\<exists>s'. run (example_NextBackOff 2)
              (sched_accept @ succeeding 0 1 (ErrorString ''refused'')) (init example_Retry)
            = Ok s'
          \<and> running (retry s') = 1 \<and> 0 < length (workers s')
          \<and> past_select (wloc (workers s' ! 0))
          \<and> responses (wtrace (workers s' ! 0)) = [Some NewAck]"
    by blast
  from t s(1) rd a2 a3
  have noack: "\<exists>s'. run (example_NextBackOff 2)
              (sched_accept @ always_failing 0 2 (ErrorString ''refused'')) (init example_Retry)
            = Ok s'
          \<and> running (retry s') = 1 \<and> 0 < length (workers s')
          \<and> past_select (wloc (workers s' ! 0))
          \<and> responses (wtrace (workers s' ! 0)) = [Some NewNoack]"
    by blast
  from h ack noack show ?thesis by blast
qed

text \<open>
  As stated the claim promises an outcome for every accepted transaction, also under
  shutdown. In this run the transaction is received while \<open>running\<close> is 1, dispatched,
  and its worker started; \<open>CloseAsync\<close> then closes \<open>closeChan\<close>, the worker takes
  that case of its select (line 277) and returns. Its whole trace is the \<open>wg.Done()\<close> of
  the deferred function: nothing was written to the response channel, and nothing will be.
\<close>

theorem no_response_after_shutdown_counterexample:
  "observe (\<lambda>s. (ctrace s, map wloc (workers s), map wtrace (workers s)))
     (run (example_NextBackOff 2) sched_cancelled (init example_Retry))
   = Some ([gauge ''retry.running'' 1, load_running 1, load_errLooped 0, pulled [''m''],
            metric ''retry.count'' 1, delivered [''m''], spawned [''m'']],
           [w_returned], [[wg_Done]])"
  by (simp add: observe_def sched_cancelled_def sched_accept_def
        init_def example_Retry_def cstep_def wstep_def wcore_def new_worker_def
        CompareAndSwapInt32_def)

subsection \<open>The backpressure gate\<close>

lemma successively_middle:
  "successively P (pre @ x # y # post) \<Longrightarrow> P x y"
  by (simp add: successively_append_iff successively_Cons)

lemma exec_gate_inv:
  fixes s :: "('w, 'b) system"
  assumes "exec N a s = Ok s'" and "gate_inv s"
  shows "gate_inv s'"
  using assms(1)
proof (cases rule: exec_elim)
  case (coordinator ca evs l)
  have tr: "ctrace s' = ctrace s @ evs"
    and lo: "cloc s' = (if interrupt_sent \<in> set evs then c223_for else l)"
    using coordinator(3) by (simp_all add: ctrace_effects cloc_effects)
  from coordinator(2) show ?thesis
    unfolding gate_inv_def tr lo
    using assms(2)[unfolded gate_inv_def]
    by (cases rule: cstep_elim)
       (auto simp: successively_append_iff may_follow_def ccancellable_iff
             split: event.splits)
next
  case (worker i wa evs w)
  have tr: "ctrace s' = ctrace s"
    and lo: "cloc s' = (if interrupt_sent \<in> set evs then c223_for else cloc s)"
    using worker(4) by (simp_all add: ctrace_effects cloc_effects)
  have g: "interrupt_sent \<in> set evs \<Longrightarrow> cloc s = c224_select"
    using wstep_interrupt_gate[OF worker(3)] .
  show ?thesis
    unfolding gate_inv_def tr lo
    using assms(2)[unfolded gate_inv_def] g
    by auto
next
  case (closer cl e r n)
  then show ?thesis using assms(2) by (simp add: gate_inv_def)
qed

lemma run_gate_inv: "run N as (init r) = Ok s \<Longrightarrow> gate_inv s"
proof -
  assume r: "run N as (init r) = Ok s"
  have i: "gate_inv (init r)" by (simp add: gate_inv_def init_def)
  show ?thesis
    by (rule run_invariant[where P = gate_inv, OF r i]) (erule exec_gate_inv, assumption)
qed

text \<open>
  What the test of line 223 does ensure. In every run the coordinator receives a
  transaction from the source only directly after a load of \<open>errLooped\<close> that returned
  no more than zero; after a load that returned more than zero its next operation is
  another load of \<open>errLooped\<close> or the start of its shutdown, never a receive. A wait
  in the gate can always end by its timer, which leads back to the load; the load leads
  to the receive as soon as it finds the counter at zero; and there the next transaction
  the source offers is taken.
\<close>

lemma receive_after_load:
  "run N as (init r) = Ok s \<Longrightarrow>
     (\<forall>pre p post. ctrace s = pre @ pulled p # post \<longrightarrow>
         (\<exists>pre' v. pre = pre' @ [load_errLooped v] \<and> v \<le> 0))
     \<and> (\<forall>pre v e post. ctrace s = pre @ load_errLooped v # e # post \<and> 0 < v \<longrightarrow>
         (\<exists>v'. e = load_errLooped v') \<or> e = close_transactionsOut)
     \<and> (cloc s = c224_select \<longrightarrow>
         (\<exists>s'. exec N (Coordinator c_timer) s = Ok s' \<and> cloc s' = c223_for
               \<and> ctrace s' = ctrace s))
     \<and> (cloc s = c223_for \<longrightarrow>
         (\<exists>s'. exec N (Coordinator c_test_errLooped) s = Ok s'
               \<and> cloc s' = (if 0 < errLooped s then c224_select else c235_select)
               \<and> ctrace s' = ctrace s @ [load_errLooped (errLooped s)]))
     \<and> (cloc s = c235_select \<longrightarrow>
         (\<forall>p. \<exists>s'. exec N (Coordinator (c_recv (Some p))) s = Ok s'
               \<and> ctrace s' = ctrace s @ [pulled p, metric ''retry.count'' 1]))"
proof -
  assume "run N as (init r) = Ok s"
  then have g: "gate_inv s" by (rule run_gate_inv)
  then have suc: "successively may_follow (ctrace s)"
    and hd: "ctrace s \<noteq> [] \<longrightarrow> hd (ctrace s) = gauge ''retry.running'' 1"
    by (simp_all add: gate_inv_def)
  have a: "\<exists>pre' v. pre = pre' @ [load_errLooped v] \<and> v \<le> 0"
    if tr: "ctrace s = pre @ pulled p # post" for pre p post
  proof (cases pre rule: rev_cases)
    case Nil
    then show ?thesis using tr hd by simp
  next
    case (snoc pre' e)
    then have "ctrace s = pre' @ e # pulled p # post" using tr by simp
    then have "may_follow e (pulled p)" using suc successively_middle by metis
    then obtain v where "e = load_errLooped v" "v \<le> 0"
      by (cases e) (simp_all add: may_follow_def)
    then show ?thesis using snoc by simp
  qed
  have b: "(\<exists>v'. e = load_errLooped v') \<or> e = close_transactionsOut"
    if tr: "ctrace s = pre @ load_errLooped v # e # post" and v: "0 < v" for pre v e post
  proof -
    have "may_follow (load_errLooped v) e" using tr suc successively_middle by metis
    then show ?thesis using v by (cases e) (simp_all add: may_follow_def)
  qed
  have c: "\<exists>s'. exec N (Coordinator c_timer) s = Ok s' \<and> cloc s' = c223_for
               \<and> ctrace s' = ctrace s"
    if "cloc s = c224_select"
    using that by (simp add: cstep_def)
  have d: "\<exists>s'. exec N (Coordinator c_test_errLooped) s = Ok s'
               \<and> cloc s' = (if 0 < errLooped s then c224_select else c235_select)
               \<and> ctrace s' = ctrace s @ [load_errLooped (errLooped s)]"
    if "cloc s = c223_for"
    using that by (simp add: cstep_def)
  have e: "\<exists>s'. exec N (Coordinator (c_recv (Some p))) s = Ok s'
               \<and> ctrace s' = ctrace s @ [pulled p, metric ''retry.count'' 1]"
    if "cloc s = c235_select" for p
    using that by (simp add: cstep_def)
  from a b c d e show ?thesis by blast
qed

text \<open>
  C3. The claim is that the coordinator pulls no new transaction while \<open>errLooped\<close> is
  above zero, and the comment of lines 221 and 222 says the same of the code:
  \<open>Do not consume another message while pending messages are being reattempted.\<close> The
  code tests the counter at line 223 and receives at line 235, and a worker can raise the
  counter in between. Here two transactions are sent and the wrapped output refuses the
  first: the coordinator has loaded 0 and waits for the source at line 235, the worker of
  the first transaction handles the failure and raises \<open>errLooped\<close> to 1, and the
  coordinator then receives the second transaction with the counter at 1.
\<close>

theorem pull_while_retrying:
  "observe (\<lambda>s. (errLooped s, cloc s))
     (run (example_NextBackOff 2) sched_before_pull (init example_Retry))
     = Some (1, c235_select)
   \<and> observe (\<lambda>s. (errLooped s, cloc s, ctrace s))
     (run (example_NextBackOff 2) (sched_before_pull @ [Coordinator (c_recv (Some [''n'']))])
        (init example_Retry))
     = Some (1, c246_select [''n''],
       [gauge ''retry.running'' 1, load_running 1, load_errLooped 0, pulled [''m''],
        metric ''retry.count'' 1, delivered [''m''], spawned [''m''], load_running 1,
        load_errLooped 0, pulled [''n''], metric ''retry.count'' 1])"
  by (simp add: observe_def sched_before_pull_def sched_accept_def
        sched_fail_def init_def example_Retry_def example_NextBackOff_def cstep_def wstep_def
        wcore_def handle_response_def new_worker_def Stop_def)

subsection \<open>The shutdown of the coordinator\<close>

lemma CloseAsync_step_closedChan:
  "CloseAsync_step a (r, n) = Ok (e, r', n') \<Longrightarrow> closedChan r' = closedChan r"
  by (cases a; cases n) (auto simp: CompareAndSwapInt32_def split: if_splits sum.splits)

lemma dropWhile_Cons_ex: "dropWhile P xs = y # ys \<Longrightarrow> \<exists>x\<in>set xs. \<not> P x"
  using dropWhile_eq_Nil_conv[of P xs] by auto

lemma count_list_dropWhile:
  "\<not> P x \<Longrightarrow> count_list (dropWhile P xs) x = count_list xs x"
  by (induction xs) auto

lemma count_list_replicate_same [simp]: "count_list (replicate k x) x = k"
  by (induction k) auto

lemma exec_shutdown_inv:
  fixes s :: "('w, 'b) system"
  assumes "exec N a s = Ok s'" and "shutdown_inv s"
  shows "shutdown_inv s'"
  using assms(1)
proof (cases rule: exec_elim)
  case (coordinator ca evs l)
  have tr: "ctrace s' = ctrace s @ evs"
    and lo: "cloc s' = (if interrupt_sent \<in> set evs then c223_for else l)"
    and cc: "closedChan (retry s')
       = (if close_closedChan \<in> set evs then Closed else closedChan (retry s))"
    using coordinator(3) by (simp_all add: ctrace_effects cloc_effects retry_effects)
  have cnt: "count_list (ctrace s) (wrapped_WaitForClose Second False)
      = count_list (dropWhile (\<lambda>e. \<not> is_shutdown e) (ctrace s))
          (wrapped_WaitForClose Second False)"
    by (simp add: count_list_dropWhile)
  from coordinator(2) show ?thesis
    unfolding shutdown_inv_def tr lo cc
  proof (cases rule: cstep_elim)
    case (WaitForClose ok)
    then show "dropWhile (\<lambda>e. \<not> is_shutdown e) (ctrace s @ evs) =
      shutdown_done (if interrupt_sent \<in> set evs then c223_for else l)
        (count_list (ctrace s @ evs) (wrapped_WaitForClose Second False)) \<and>
      ((if close_closedChan \<in> set evs then Closed else closedChan (retry s)) = Closed) =
      ((if interrupt_sent \<in> set evs then c223_for else l) = c_returned)"
      using assms(2)[unfolded shutdown_inv_def]
      by (auto simp: dropWhile_append replicate_append_same dest: dropWhile_Cons_ex)
  qed (use assms(2)[unfolded shutdown_inv_def] cnt in
        \<open>auto simp: dropWhile_append dropWhile_eq_Nil_conv ccancellable_iff
           dest: dropWhile_Cons_ex\<close>)
next
  case (worker i wa evs w)
  have tr: "ctrace s' = ctrace s"
    and lo: "cloc s' = (if interrupt_sent \<in> set evs then c223_for else cloc s)"
    and cc: "closedChan (retry s')
       = (if close_closedChan \<in> set evs then Closed else closedChan (retry s))"
    using worker(4) by (simp_all add: ctrace_effects cloc_effects retry_effects)
  have g: "interrupt_sent \<in> set evs \<Longrightarrow> cloc s = c224_select"
    using wstep_interrupt_gate[OF worker(3)] .
  have n: "close_closedChan \<notin> set evs"
    using worker(3) by (cases rule: wstep_elim) auto
  show ?thesis
    unfolding shutdown_inv_def tr lo cc
    using assms(2)[unfolded shutdown_inv_def] g n
    by auto
next
  case (closer cl e r n)
  then show ?thesis
    using assms(2) CloseAsync_step_closedChan[OF closer(2)]
    by (simp add: shutdown_inv_def)
qed

lemma run_shutdown_inv:
  assumes "run N as (init r) = Ok s" and "closedChan r = Open"
  shows "shutdown_inv s"
proof -
  have i: "shutdown_inv (init r)" using assms(2) by (simp add: shutdown_inv_def init_def)
  show ?thesis
    by (rule run_invariant[where P = shutdown_inv, OF assms(1) i])
       (erule exec_shutdown_inv, assumption)
qed

lemma polls_return:
  "cloc s = c208_defer \<Longrightarrow> closedChan (retry s) = Open \<Longrightarrow>
     \<exists>s'. run N (polls k) s = Ok s' \<and> closedChan (retry s') = Closed \<and> cloc s' = c_returned"
proof (induction k arbitrary: s)
  case 0
  then show ?case by (simp add: polls_def cstep_def)
next
  case (Suc k)
  let ?t = "s\<lparr>ctrace := ctrace s @ [wrapped_WaitForClose Second False]\<rparr>"
  have st: "exec N (Coordinator (c_WaitForClose False)) s = Ok ?t"
    using Suc.prems(1) by (simp add: cstep_def)
  have "cloc ?t = c208_defer" "closedChan (retry ?t) = Open"
    using Suc.prems by simp_all
  from Suc.IH[OF this]
  obtain s' where "run N (polls k) ?t = Ok s'" "closedChan (retry s') = Closed"
    "cloc s' = c_returned"
    by blast
  then show ?case using st by (auto simp: polls_def)
qed

lemma shutdown_steps_return:
  assumes "cloc s = c206_defer" and "transactionsOut (retry s) = Open"
    and "closedChan (retry s) = Open"
  shows "\<exists>s'. run N (shutdown_steps k) s = Ok s' \<and> closedChan (retry s') = Closed
            \<and> cloc s' = c_returned"
proof -
  let ?t = "s\<lparr>cloc := c208_defer,
              ctrace := ctrace s @ [close_transactionsOut, wrapped_CloseAsync],
              retry := (retry s)\<lparr>transactionsOut := Closed\<rparr>\<rparr>"
  have st: "run N [Coordinator c_close_out, Coordinator c_CloseAsync] s = Ok ?t"
    using assms(1,2) by (simp add: cstep_def)
  have "cloc ?t = c208_defer" "closedChan (retry ?t) = Open"
    using assms(3) by simp_all
  from polls_return[OF this, of N k]
  obtain s' where "run N (polls k) ?t = Ok s'" "closedChan (retry s') = Closed"
    "cloc s' = c_returned"
    by blast
  then show ?thesis
    using st unfolding shutdown_steps_def run_append by auto
qed

text \<open>
  C9. In every run the coordinator leaves its loop only to the first line of its
  deferred function, and what it has performed of the shutdown is, at every place, the
  sequence: close \<open>transactionsOut\<close>; \<open>CloseAsync\<close> of the wrapped output;
  \<open>WaitForClose\<close> of the wrapped output with one second, again after every error; the
  decrement of the running gauge; close \<open>closedChan\<close>. No operation of the shutdown
  happens before. \<open>closedChan\<close> is closed exactly when the coordinator has returned,
  and then the whole sequence stands at the end of its trace. From the first line of the
  deferred function the coordinator does return, after any number of polls in vain, once
  the wrapped output reports closed.
\<close>

theorem shutdown_order:
  "run N as (init r) = Ok s \<Longrightarrow> closedChan r = Open \<Longrightarrow>
     (\<exists>pre k. ctrace s = pre @ shutdown_done (cloc s) k
         \<and> list_all (\<lambda>e. \<not> is_shutdown e) pre)
     \<and> (closedChan (retry s) = Closed \<longleftrightarrow> cloc s = c_returned)
     \<and> (closedChan (retry s) = Closed \<longrightarrow>
          (\<exists>pre k. ctrace s
              = pre @ [close_transactionsOut, wrapped_CloseAsync]
                @ replicate k (wrapped_WaitForClose Second False)
                @ [wrapped_WaitForClose Second True, gauge ''retry.running'' (- 1),
                   close_closedChan]
            \<and> list_all (\<lambda>e. \<not> is_shutdown e) pre))
     \<and> (\<forall>a s'. exec N a s = Ok s' \<and> before_defer (cloc s) \<and> \<not> before_defer (cloc s')
           \<longrightarrow> cloc s' = c206_defer \<and> ctrace s' = ctrace s)
     \<and> (\<forall>k. cloc s = c206_defer \<and> transactionsOut (retry s) = Open \<longrightarrow>
           (\<exists>s'. run N (as @ shutdown_steps k) (init r) = Ok s'
                \<and> closedChan (retry s') = Closed \<and> cloc s' = c_returned))"
proof -
  assume r: "run N as (init r) = Ok s" and o: "closedChan r = Open"
  have inv: "shutdown_inv s" using run_shutdown_inv[OF r o] .
  let ?P = "\<lambda>e. \<not> is_shutdown e"
  let ?k = "count_list (ctrace s) (wrapped_WaitForClose Second False)"
  have split: "ctrace s = takeWhile ?P (ctrace s) @ shutdown_done (cloc s) ?k"
    using inv takeWhile_dropWhile_id[of ?P "ctrace s"] by (simp add: shutdown_inv_def)
  have pre: "list_all ?P (takeWhile ?P (ctrace s))"
    by (auto simp: list_all_iff dest: set_takeWhileD)
  have a: "\<exists>pre k. ctrace s = pre @ shutdown_done (cloc s) k \<and> list_all ?P pre"
    using split pre by blast
  have b: "closedChan (retry s) = Closed \<longleftrightarrow> cloc s = c_returned"
    using inv by (simp add: shutdown_inv_def)
  have c: "\<exists>pre k. ctrace s
              = pre @ [close_transactionsOut, wrapped_CloseAsync]
                @ replicate k (wrapped_WaitForClose Second False)
                @ [wrapped_WaitForClose Second True, gauge ''retry.running'' (- 1),
                   close_closedChan]
            \<and> list_all ?P pre"
    if "closedChan (retry s) = Closed"
  proof -
    have "cloc s = c_returned" using that b by simp
    then have "ctrace s = takeWhile ?P (ctrace s)
        @ [close_transactionsOut, wrapped_CloseAsync]
        @ replicate ?k (wrapped_WaitForClose Second False)
        @ [wrapped_WaitForClose Second True, gauge ''retry.running'' (- 1), close_closedChan]"
      using split by simp
    then show ?thesis using pre by blast
  qed
  have d: "cloc s' = c206_defer \<and> ctrace s' = ctrace s"
    if e: "exec N a s = Ok s'" and bd: "before_defer (cloc s)" "\<not> before_defer (cloc s')"
    for a s'
    using e
  proof (cases rule: exec_elim)
    case (coordinator ca evs l)
    have tr: "ctrace s' = ctrace s @ evs"
      and lo: "cloc s' = (if interrupt_sent \<in> set evs then c223_for else l)"
      using coordinator(3) by (simp_all add: ctrace_effects cloc_effects)
    from coordinator(2) show ?thesis
      using bd unfolding tr lo
      by (cases rule: cstep_elim) (auto split: if_splits)
  next
    case (worker i wa evs w)
    have tr: "ctrace s' = ctrace s"
      and lo: "cloc s' = (if interrupt_sent \<in> set evs then c223_for else cloc s)"
      using worker(4) by (simp_all add: ctrace_effects cloc_effects)
    show ?thesis using bd unfolding tr lo by (auto split: if_splits)
  next
    case (closer cl e r n)
    then show ?thesis using bd by simp
  qed
  have e: "\<exists>s'. run N (as @ shutdown_steps k) (init r) = Ok s'
                \<and> closedChan (retry s') = Closed \<and> cloc s' = c_returned"
    if l: "cloc s = c206_defer" and t: "transactionsOut (retry s) = Open" for k
  proof -
    have "closedChan (retry s) \<noteq> Closed" using b l by simp
    then have "closedChan (retry s) = Open" by (cases "closedChan (retry s)") simp_all
    from shutdown_steps_return[OF l t this, of N k] r show ?thesis
      by (auto simp: run_append)
  qed
  from a b c d e show ?thesis by blast
qed

lemma run_sched_shutdown:
  "observe (\<lambda>s. (closedChan (retry s), cloc s, ctrace s))
     (run (example_NextBackOff 2) sched_shutdown (init example_Retry))
   = Some (Closed, c_returned,
       [gauge ''retry.running'' 1, load_running 1, load_errLooped 0,
        close_transactionsOut, wrapped_CloseAsync, wrapped_WaitForClose Second False,
        wrapped_WaitForClose Second True, gauge ''retry.running'' (- 1), close_closedChan])"
  by (simp add: observe_def sched_shutdown_def init_def example_Retry_def cstep_def)

theorem shutdown_order_witness:
  "\<exists>s. run (example_NextBackOff 2) sched_shutdown (init example_Retry) = Ok s
       \<and> closedChan example_Retry = Open
       \<and> closedChan (retry s) = Closed
       \<and> cloc s = c_returned
       \<and> ctrace s = [gauge ''retry.running'' 1, load_running 1, load_errLooped 0,
            close_transactionsOut, wrapped_CloseAsync, wrapped_WaitForClose Second False,
            wrapped_WaitForClose Second True, gauge ''retry.running'' (- 1),
            close_closedChan]"
proof -
  from observe_Some[OF run_sched_shutdown]
  obtain s where r: "run (example_NextBackOff 2) sched_shutdown (init example_Retry) = Ok s"
    and c: "closedChan (retry s) = Closed"
    and t: "ctrace s = [gauge ''retry.running'' 1, load_running 1, load_errLooped 0,
            close_transactionsOut, wrapped_CloseAsync, wrapped_WaitForClose Second False,
            wrapped_WaitForClose Second True, gauge ''retry.running'' (- 1),
            close_closedChan]"
    by auto
  have o: "closedChan example_Retry = Open" by (simp add: example_Retry_def)
  have "cloc s = c_returned" using shutdown_order[OF r o] c by blast
  then show ?thesis using r o c t by blast
qed

end
